theory Spec2Isabelle
  imports Main "HOL-Library.Multiset" "HOL-Library.Product_Lexorder"
begin

section \<open>Python values, exceptions and list primitives\<close>

text \<open>
  The exceptions the modelled code can raise. Every raise of the source is an \<open>Inl\<close>
  branch of the model; a normal return is \<open>Inr\<close>.
\<close>

datatype error = IndexError | ValueError | TypeError

text \<open>
  A row of a parsed export is a list of \<open>str\<close> (what \<open>csv.reader\<close> yields). A field of a
  merged record is a \<open>str\<close> or Python's \<open>None\<close> (the placeholder rows of \<open>merge_data\<close> hold
  \<open>None\<close>), hence an option.
\<close>

type_synonym row = "string list"
type_synonym field = "string option"
type_synonym mrow = "field list"
type_synonym batch = "mrow list"

text \<open>Sequencing of fallible steps: the first exception aborts what follows.\<close>

definition bnd :: "error + 'a \<Rightarrow> ('a \<Rightarrow> error + 'b) \<Rightarrow> error + 'b" where
  "bnd m f = (case m of Inl e \<Rightarrow> Inl e | Inr x \<Rightarrow> f x)"

text \<open>\<open>xs[i]\<close> for a literal index \<open>i \<ge> 0\<close>: out of range raises IndexError.\<close>

definition index :: "'a list \<Rightarrow> nat \<Rightarrow> error + 'a" where
  "index xs i = (if i < length xs then Inr (xs ! i) else Inl IndexError)"

text \<open>\<open>xs[-1]\<close>: the last element, IndexError on the empty list.\<close>

definition last_item :: "'a list \<Rightarrow> error + 'a" where
  "last_item xs = (case xs of [] \<Rightarrow> Inl IndexError | _ \<Rightarrow> Inr (last xs))"

section \<open>merge_data\<close>

text \<open>
  \<open>next((row for row in rows if row[:4] == station_info), default)\<close>: the first row, in
  list order, whose first four fields equal the key; the already evaluated default when
  there is none. A slice never raises: \<open>row[:4]\<close> is \<open>take 4 row\<close> whatever the length.
\<close>

fun next_match :: "row \<Rightarrow> row list \<Rightarrow> mrow \<Rightarrow> mrow" where
  "next_match station_info [] dflt = dflt"
| "next_match station_info (r # rs) dflt =
     (if take 4 r = station_info then map Some r else next_match station_info rs dflt)"

text \<open>
  The body of the loop of \<open>merge_data\<close> for one \<open>tpt_row\<close>. The default argument of
  \<open>next\<close>, \<open>[None] * len(tzt_data[0])\<close>, is evaluated before \<open>next\<close> is called, on every
  iteration, so \<open>tzt_data[0]\<close> (and then \<open>txt_data[0]\<close>) is read even when a row matches.
\<close>

definition merge_row :: "row \<Rightarrow> row list \<Rightarrow> row list \<Rightarrow> error + mrow" where
  "merge_row tpt_row tzt_data txt_data =
     (let station_info = take 4 tpt_row in
      bnd (index tzt_data 0) (\<lambda>tzt0.
      let tzt_row = next_match station_info tzt_data (replicate (length tzt0) None) in
      bnd (index txt_data 0) (\<lambda>txt0.
      let txt_row = next_match station_info txt_data (replicate (length txt0) None) in
      bnd (index tzt_row 6) (\<lambda>tzt6.
      bnd (index txt_row 4) (\<lambda>txt4.
      Inr (map Some station_info @ [tzt6] @ map Some (take 2 (drop 4 tpt_row))
           @ take 2 (drop 4 tzt_row) @ [txt4] @ map Some (drop 6 tpt_row)))))))"

text \<open>The \<open>for tpt_row in tpt_data\<close> loop, with \<open>result\<close> as the accumulator.\<close>

fun merge_loop :: "row list \<Rightarrow> row list \<Rightarrow> row list \<Rightarrow> mrow list \<Rightarrow> error + mrow list" where
  "merge_loop [] tzt_data txt_data result = Inr result"
| "merge_loop (tpt_row # rest) tzt_data txt_data result =
     bnd (merge_row tpt_row tzt_data txt_data)
       (\<lambda>merged. merge_loop rest tzt_data txt_data (result @ [merged]))"

definition merge_data :: "row list \<Rightarrow> row list \<Rightarrow> row list \<Rightarrow> error + mrow list" where
  "merge_data tpt_data tzt_data txt_data = merge_loop tpt_data tzt_data txt_data []"

section \<open>Strings: \<open>int\<close>, \<open>str\<close> and \<open>split\<close>\<close>

text \<open>
  Characters are bytes; the string functions below are Python's on ASCII text. Digits
  and white space outside ASCII, which Python also accepts, are not digits or white
  space here.
\<close>

definition is_digit :: "char \<Rightarrow> bool" where
  "is_digit c = (48 \<le> (of_char c :: nat) \<and> (of_char c :: nat) \<le> 57)"

definition digit_val :: "char \<Rightarrow> nat" where
  "digit_val c = of_char c - 48"

definition digit_char :: "nat \<Rightarrow> char" where
  "digit_char d = char_of (48 + d)"

text \<open>\<open>str.isspace\<close> on ASCII: tab to carriage return, the four separators and space.\<close>

definition is_space :: "char \<Rightarrow> bool" where
  "is_space c = (let n = (of_char c :: nat) in (9 \<le> n \<and> n \<le> 13) \<or> (28 \<le> n \<and> n \<le> 32))"

text \<open>
  The white space that \<open>int\<close> skips around the literal of an ASCII string: tab to
  carriage return and space. The separators 28 to 31 are not skipped.
\<close>

definition is_int_space :: "char \<Rightarrow> bool" where
  "is_int_space c = (let n = (of_char c :: nat) in (9 \<le> n \<and> n \<le> 13) \<or> n = 32)"

definition int_strip :: "string \<Rightarrow> string" where
  "int_strip s = rev (dropWhile is_int_space (rev (dropWhile is_int_space s)))"

text \<open>The value of a string of decimal digits.\<close>

definition digits_val :: "string \<Rightarrow> nat" where
  "digits_val ds = foldl (\<lambda>acc c. acc * 10 + digit_val c) 0 ds"

text \<open>
  The limit of the conversions between \<open>int\<close> and \<open>str\<close> (the default of
  \<open>sys.int_max_str_digits\<close>, which the program does not change): a literal or a decimal
  representation with more digits raises ValueError.
\<close>

definition int_max_str_digits :: nat where
  "int_max_str_digits = 4300"

text \<open>
  The digits of an integer literal after its first digit: a digit, or one underscore
  followed by a digit. The result is the digits without the underscores.
\<close>

fun int_digits :: "string \<Rightarrow> error + string" where
  "int_digits [] = Inr []"
| "int_digits [c] = (if is_digit c then Inr [c] else Inl ValueError)"
| "int_digits (c # d # cs) =
     (if is_digit c then bnd (int_digits (d # cs)) (\<lambda>ds. Inr (c # ds))
      else if c = CHR ''_'' \<and> is_digit d then bnd (int_digits cs) (\<lambda>ds. Inr (d # ds))
      else Inl ValueError)"

text \<open>
  A literal: first a digit, then digits and single underscores; it is validated as a
  whole before its digits are counted against the limit. Leading zeros count.
\<close>

definition int_literal :: "string \<Rightarrow> error + nat" where
  "int_literal s =
     (case s of
        [] \<Rightarrow> Inl ValueError
      | c # cs \<Rightarrow>
          if is_digit c then
            bnd (int_digits cs) (\<lambda>ds.
              if int_max_str_digits < length (c # ds) then Inl ValueError
              else Inr (digits_val (c # ds)))
          else Inl ValueError)"

text \<open>\<open>int(s)\<close> for a \<open>str\<close>: surrounding white space, an optional sign, a literal.\<close>

definition py_int :: "string \<Rightarrow> error + int" where
  "py_int s =
     (case int_strip s of
        [] \<Rightarrow> Inl ValueError
      | c # cs \<Rightarrow>
          if c = CHR ''-'' then bnd (int_literal cs) (\<lambda>n. Inr (- int n))
          else if c = CHR ''+'' then bnd (int_literal cs) (\<lambda>n. Inr (int n))
          else bnd (int_literal (c # cs)) (\<lambda>n. Inr (int n)))"

text \<open>
  The decimal representation of an \<open>int\<close>, and \<open>str(i)\<close>, which raises ValueError when
  the representation has more digits than the limit (the sign is not counted).
\<close>

fun str_nat :: "nat \<Rightarrow> string" where
  "str_nat n = (if n < 10 then [digit_char n] else str_nat (n div 10) @ [digit_char (n mod 10)])"

definition str_int :: "int \<Rightarrow> string" where
  "str_int i = (if i < 0 then CHR ''-'' # str_nat (nat (- i)) else str_nat (nat i))"

definition py_str :: "int \<Rightarrow> error + string" where
  "py_str i =
     (if int_max_str_digits < length (str_nat (nat \<bar>i\<bar>)) then Inl ValueError
      else Inr (str_int i))"

text \<open>\<open>s.split(sep)\<close> for a one-character separator: never empty, \<open>''.split('=') == ['']\<close>.\<close>

fun py_split :: "char \<Rightarrow> string \<Rightarrow> string list" where
  "py_split sep [] = [[]]"
| "py_split sep (c # cs) =
     (if c = sep then [] # py_split sep cs
      else (case py_split sep cs of [] \<Rightarrow> [[c]] | p # ps \<Rightarrow> (c # p) # ps))"

text \<open>\<open>xs[j]\<close> and \<open>xs[j] = v\<close> for a computed index: a negative index counts from the end.\<close>

definition py_getitem :: "'a list \<Rightarrow> int \<Rightarrow> error + 'a" where
  "py_getitem xs j =
     (let n = int (length xs); k = (if j < 0 then j + n else j)
      in if 0 \<le> k \<and> k < n then Inr (xs ! nat k) else Inl IndexError)"

definition py_setitem :: "'a list \<Rightarrow> int \<Rightarrow> 'a \<Rightarrow> error + 'a list" where
  "py_setitem xs j v =
     (let n = int (length xs); k = (if j < 0 then j + n else j)
      in if 0 \<le> k \<and> k < n then Inr (xs[nat k := v]) else Inl IndexError)"

text \<open>\<open>range(a, b)\<close> as the list it runs through.\<close>

definition py_range :: "int \<Rightarrow> int \<Rightarrow> int list" where
  "py_range a b = [a..b - 1]"

section \<open>processing_angle and processing_distance\<close>

text \<open>
  The functions take the rows that \<open>csv.reader\<close> yields for the open file. Their
  \<open>except OSError\<close> handlers catch what the file system raises while the file is read;
  the exceptions of the body itself (IndexError, ValueError) are not caught by them. The
  handlers are modelled where the files come in, with the workers (\<open>guarded\<close>,
  \<open>process_data_files\<close> below).
\<close>

text \<open>
  The inner loop \<open>for j in range(i * rows, (i + 1) * rows)\<close>: while \<open>j < limit\<close> the row at
  \<open>j\<close> is replaced by the annotated row; the first \<open>j\<close> at or past \<open>limit\<close> breaks. The
  right-hand side is evaluated left to right: \<open>str(i + 1)\<close> before \<open>data[j]\<close>.
\<close>

fun inner_loop :: "row \<Rightarrow> row \<Rightarrow> int \<Rightarrow> int \<Rightarrow> int list \<Rightarrow> row list \<Rightarrow> error + row list" where
  "inner_loop station_info date_info i limit [] data = Inr data"
| "inner_loop station_info date_info i limit (j # js) data =
     (if j < limit then
        bnd (py_str (i + 1)) (\<lambda>round_number.
        bnd (py_getitem data j) (\<lambda>old.
        bnd (py_setitem data j (station_info @ [round_number] @ old @ date_info)) (\<lambda>data'.
        inner_loop station_info date_info i limit js data')))
      else Inr data)"

text \<open>The outer loop \<open>for i in range(returns)\<close>.\<close>

fun outer_loop :: "row \<Rightarrow> row \<Rightarrow> int \<Rightarrow> int \<Rightarrow> int list \<Rightarrow> row list \<Rightarrow> error + row list" where
  "outer_loop station_info date_info rows limit [] data = Inr data"
| "outer_loop station_info date_info rows limit (i # is) data =
     bnd (inner_loop station_info date_info i limit (py_range (i * rows) ((i + 1) * rows)) data)
       (\<lambda>data'. outer_loop station_info date_info rows limit is data')"

text \<open>
  \<open>data[2:-1]\<close> is \<open>butlast (drop 2 data)\<close>. The two comprehensions over
  \<open>enumerate(data)\<close> first collect the positions of the rows of length 1, then keep the
  rows at the other positions.
\<close>

definition separator_indices :: "row list \<Rightarrow> nat list" where
  "separator_indices data = map fst (filter (\<lambda>(i, x). length x = 1) (enumerate 0 data))"

definition remove_indices :: "nat list \<Rightarrow> row list \<Rightarrow> row list" where
  "remove_indices indices data = map snd (filter (\<lambda>(i, x). i \<notin> set indices) (enumerate 0 data))"

definition processing_angle :: "row list \<Rightarrow> error + row list" where
  "processing_angle data =
     bnd (index data 0) (\<lambda>head0.
     bnd (index head0 0) (\<lambda>station.
     bnd (last_item head0) (\<lambda>height.
     let station_info = [station, height] in
     bnd (index head0 1) (\<lambda>f1.
     bnd (py_int f1) (\<lambda>returns.
     bnd (index head0 2) (\<lambda>f2.
     bnd (py_int f2) (\<lambda>k.
     let rows = k + 1 in
     bnd (index data 1) (\<lambda>head1.
     bnd (index head1 1) (\<lambda>g1.
     bnd (index (py_split CHR ''='' g1) 1) (\<lambda>date.
     bnd (index head1 2) (\<lambda>g2.
     bnd (index (py_split CHR ''='' g2) 1) (\<lambda>time.
     let date_info = [date, time];
         data1 = butlast (drop 2 data);
         indices = separator_indices data1;
         data2 = remove_indices indices data1;
         limit = int (length data2)
     in outer_loop station_info date_info rows limit (py_range 0 returns) data2))))))))))))"

text \<open>
  \<open>processing_distance\<close>: the time token is the fourth field of the second header row;
  rows that contain the field \<open>Dist Start\<close> or \<open>Dist End\<close> are dropped.
\<close>

definition processing_distance :: "row list \<Rightarrow> error + row list" where
  "processing_distance data =
     bnd (index data 0) (\<lambda>head0.
     bnd (index head0 0) (\<lambda>station.
     bnd (last_item head0) (\<lambda>height.
     let station_info = [station, height] in
     bnd (index data 1) (\<lambda>head1.
     bnd (index head1 1) (\<lambda>g1.
     bnd (index (py_split CHR ''='' g1) 1) (\<lambda>date.
     bnd (index head1 3) (\<lambda>g3.
     bnd (index (py_split CHR ''='' g3) 1) (\<lambda>time.
     let date_info = [date, time];
         data1 = butlast (drop 2 data);
         data2 = filter (\<lambda>sublist. ''Dist Start'' \<notin> set sublist \<and> ''Dist End'' \<notin> set sublist) data1
     in Inr (map (\<lambda>row. station_info @ row @ date_info) data2)))))))))"

section \<open>process_data\<close>

text \<open>The three parsers in the order of the source, then the merge.\<close>

definition process_data :: "row list \<Rightarrow> row list \<Rightarrow> row list \<Rightarrow> error + mrow list" where
  "process_data tpt_f tzt_f txt_f =
     bnd (processing_angle tpt_f) (\<lambda>tpt_data.
     bnd (processing_angle tzt_f) (\<lambda>tzt_data.
     bnd (processing_distance txt_f) (\<lambda>txt_data.
     merge_data tpt_data tzt_data txt_data)))"

section \<open>The global ordering of process_threaded\<close>

text \<open>
  A \<open>datetime\<close> without microseconds and time zone: year, month, day, hour, minute,
  second. Python compares two such values chronologically, which is the lexicographic
  order of the tuple.
\<close>

type_synonym datetime = "nat \<times> nat \<times> nat \<times> nat \<times> nat \<times> nat"

text \<open>
  One numeric directive of the format: the digits up to the next character that is not
  a digit must be one of the alternatives of the directive's pattern, which all have one
  or two digits: \<open>lo1 .. 9\<close> written with one digit, or \<open>lo2 .. hi2\<close> written with two. The
  result is the value and the rest of the input.
\<close>

definition directive :: "nat \<Rightarrow> nat \<Rightarrow> nat \<Rightarrow> string \<Rightarrow> error + (nat \<times> string)" where
  "directive lo1 lo2 hi2 s =
     (let ds = takeWhile is_digit s; v = digits_val ds in
      if (length ds = 1 \<and> lo1 \<le> v) \<or> (length ds = 2 \<and> lo2 \<le> v \<and> v \<le> hi2)
      then Inr (v, dropWhile is_digit s) else Inl ValueError)"

text \<open>\<open>%Y\<close>: exactly four digits.\<close>

definition directive_Y :: "string \<Rightarrow> error + (nat \<times> string)" where
  "directive_Y s =
     (let ds = takeWhile is_digit s in
      if length ds = 4 then Inr (digits_val ds, dropWhile is_digit s) else Inl ValueError)"

text \<open>\<open>%d\<close> also accepts a space followed by one digit from 1 to 9.\<close>

definition directive_d :: "string \<Rightarrow> error + (nat \<times> string)" where
  "directive_d s =
     (case s of
        c # cs \<Rightarrow>
          if c = CHR '' '' then
            (let ds = takeWhile is_digit cs in
             if length ds = 1 \<and> 1 \<le> digits_val ds then Inr (digits_val ds, dropWhile is_digit cs)
             else Inl ValueError)
          else directive 1 1 31 s
      | [] \<Rightarrow> Inl ValueError)"

text \<open>A literal character of the format.\<close>

definition expect :: "char \<Rightarrow> string \<Rightarrow> error + string" where
  "expect c s = (case s of [] \<Rightarrow> Inl ValueError | x # xs \<Rightarrow> if x = c then Inr xs else Inl ValueError)"

text \<open>The space of the format stands for one or more white space characters.\<close>

definition expect_spaces :: "string \<Rightarrow> error + string" where
  "expect_spaces s = (if takeWhile is_space s = [] then Inl ValueError else Inr (dropWhile is_space s))"

definition is_leap :: "nat \<Rightarrow> bool" where
  "is_leap y = (y mod 4 = 0 \<and> (y mod 100 \<noteq> 0 \<or> y mod 400 = 0))"

definition days_in_month :: "nat \<Rightarrow> nat \<Rightarrow> nat" where
  "days_in_month y m =
     (if m = 2 then (if is_leap y then 29 else 28)
      else if m = 4 \<or> m = 6 \<or> m = 9 \<or> m = 11 then 30 else 31)"

text \<open>
  \<open>datetime.strptime(s, '%Y-%m-%d %H:%M:%S')\<close>. The whole input must be consumed; the
  year 0, a day past the end of the month and the seconds 60 and 61 (which the pattern
  of \<open>%S\<close> admits) are rejected when the \<open>datetime\<close> is built. Every failure is a
  ValueError.
\<close>

definition strptime :: "string \<Rightarrow> error + datetime" where
  "strptime s =
     bnd (directive_Y s) (\<lambda>(year, s1).
     bnd (expect CHR ''-'' s1) (\<lambda>s2.
     bnd (directive 1 1 12 s2) (\<lambda>(month, s3).
     bnd (expect CHR ''-'' s3) (\<lambda>s4.
     bnd (directive_d s4) (\<lambda>(day, s5).
     bnd (expect_spaces s5) (\<lambda>s6.
     bnd (directive 0 0 23 s6) (\<lambda>(hour, s7).
     bnd (expect CHR '':'' s7) (\<lambda>s8.
     bnd (directive 0 0 59 s8) (\<lambda>(minute, s9).
     bnd (expect CHR '':'' s9) (\<lambda>s10.
     bnd (directive 0 0 61 s10) (\<lambda>(second, s11).
     if s11 \<noteq> [] \<or> year = 0 \<or> days_in_month year month < day \<or> 59 < second
     then Inl ValueError
     else Inr (year, month, day, hour, minute, second))))))))))))"

text \<open>\<open>a + b\<close> where \<open>a\<close> is a field and \<open>b\<close> a field: both must be \<open>str\<close>.\<close>

definition str_add :: "field \<Rightarrow> field \<Rightarrow> error + field" where
  "str_add a b = (case (a, b) of (Some s, Some t) \<Rightarrow> Inr (Some (s @ t)) | _ \<Rightarrow> Inl TypeError)"

text \<open>
  The sort key \<open>lambda x: datetime.strptime(x[0][10] + ' ' + x[0][11], '%Y-%m-%d %H:%M:%S')\<close>,
  evaluated left to right.
\<close>

definition batch_key :: "batch \<Rightarrow> error + datetime" where
  "batch_key x =
     bnd (index x 0) (\<lambda>first.
     bnd (index first 10) (\<lambda>f10.
     bnd (str_add f10 (Some '' '')) (\<lambda>s1.
     bnd (index first 11) (\<lambda>f11.
     bnd (str_add s1 f11) (\<lambda>s2.
     case s2 of None \<Rightarrow> Inl TypeError | Some s \<Rightarrow> strptime s)))))"

text \<open>
  \<open>data.sort(key=...)\<close> computes the key of every element, in list order, before it
  moves anything: the first key that raises aborts the sort. The sort itself is stable
  and ascending in the keys.
\<close>

fun keys_of :: "batch list \<Rightarrow> error + datetime list" where
  "keys_of [] = Inr []"
| "keys_of (x # xs) = bnd (batch_key x) (\<lambda>k. bnd (keys_of xs) (\<lambda>ks. Inr (k # ks)))"

definition sort_batches :: "batch list \<Rightarrow> error + batch list" where
  "sort_batches data =
     bnd (keys_of data) (\<lambda>keys. Inr (map snd (sort_key fst (zip keys data))))"

section \<open>Handlers, workers and the end of the run\<close>

text \<open>
  Besides the exceptions of the computations there are OSError, raised by the file
  system (\<open>open\<close>, reading, \<open>wb.save\<close>), and SystemExit, raised by \<open>exit()\<close>.
\<close>

datatype exc = Raised error | OSError | SystemExit

text \<open>
  The logger of the instance, shared by all threads: whether its file handler is still
  attached, and how many entries have been written to \<open>error.log\<close>. \<open>self.log\<close> reaches
  the file through the handler only.
\<close>

record logger =
  has_handler :: bool
  written :: nat

text \<open>
  What every handler of the class does before it raises SystemExit:
  \<open>self.log(err); self.logger.handlers.clear(); exit()\<close>.
\<close>

definition log_clear_exit :: "logger \<Rightarrow> logger" where
  "log_clear_exit lg =
     \<lparr>has_handler = False, written = (if has_handler lg then Suc (written lg) else written lg)\<rparr>"

text \<open>
  \<open>try: body except OSError as err: ...\<close> with that handler: an OSError of the body is
  logged and replaced by SystemExit; a result and every other exception pass unchanged.
\<close>

definition guarded :: "exc + 'a \<Rightarrow> logger \<Rightarrow> (exc + 'a) \<times> logger" where
  "guarded body lg =
     (case body of Inl OSError \<Rightarrow> (Inl SystemExit, log_clear_exit lg) | _ \<Rightarrow> (body, lg))"





text \<open>
  \<open>output_excel\<close>: the rows of all batches, flattened, are written to a sheet and the
  workbook is saved, inside a \<open>try\<close> with the handler above. The spreadsheet library and the
  file system are not part of the program: \<open>save\<close> gives the outcome of writing and saving
  these rows (an OSError, another exception such as the library's ValueError for a
  column or row beyond the sheet, or success). The result is the rows of the report.
\<close>

definition output_excel ::
    "(mrow list \<Rightarrow> exc + unit) \<Rightarrow> batch list \<Rightarrow> logger \<Rightarrow> (exc + mrow list) \<times> logger" where
  "output_excel save data lg =
     guarded (case save (concat data) of Inl e \<Rightarrow> Inl e | Inr u \<Rightarrow> Inr (concat data)) lg"

text \<open>
  What follows the joins in \<open>process_threaded\<close>: the sort, outside any \<open>try\<close>, then
  \<open>output_excel\<close>.
\<close>

definition after_join ::
    "(mrow list \<Rightarrow> exc + unit) \<Rightarrow> batch list \<Rightarrow> logger \<Rightarrow> (exc + mrow list) \<times> logger" where
  "after_join save data lg =
     (case sort_batches data of
        Inl e \<Rightarrow> (Inl (Raised e), lg)
      | Inr sorted_data \<Rightarrow> output_excel save sorted_data lg)"

text \<open>
  The main block calls \<open>process_threaded\<close> in a \<open>try\<close> whose handler is
  \<open>except OSError as err: print(err); exit()\<close>: it writes nothing to the log. The run
  ends by returning, by SystemExit, or with an exception that no handler caught.
\<close>

datatype ending = Completed | Exited | Uncaught error

record run_result =
  ending :: ending
  final_log :: logger
  report :: "mrow list option"

definition main_block :: "(exc + mrow list) \<times> logger \<Rightarrow> run_result" where
  "main_block r =
     (case r of
        (Inr rows, lg) \<Rightarrow> \<lparr>ending = Completed, final_log = lg, report = Some rows\<rparr>
      | (Inl OSError, lg) \<Rightarrow> \<lparr>ending = Exited, final_log = lg, report = None\<rparr>
      | (Inl SystemExit, lg) \<Rightarrow> \<lparr>ending = Exited, final_log = lg, report = None\<rparr>
      | (Inl (Raised e), lg) \<Rightarrow> \<lparr>ending = Uncaught e, final_log = lg, report = None\<rparr>)"

definition finish_run :: "(mrow list \<Rightarrow> exc + unit) \<Rightarrow> batch list \<Rightarrow> logger \<Rightarrow> run_result" where
  "finish_run save data lg = main_block (after_join save data lg)"


section \<open>Spawning the workers\<close>

text \<open>
  \<open>self.files\<close> maps a folder name to a dict from the upper-case extension to a path; the
  loop runs through its items in order. \<open>file_dict.get(k)\<close> is \<open>None\<close> for a missing key,
  and \<open>if tpt_file and tzt_file and txt_file\<close> tests truthiness: a path counts when it is
  present and not the empty string. The result is the argument triple of every thread
  started, in the order of the starts.
\<close>

type_synonym file_dict = "string \<rightharpoonup> string"

definition truthy :: "string option \<Rightarrow> bool" where
  "truthy v = (case v of None \<Rightarrow> False | Some p \<Rightarrow> p \<noteq> [])"

fun spawn_loop :: "(string \<times> file_dict) list \<Rightarrow> (string \<times> string \<times> string) list
                   \<Rightarrow> (string \<times> string \<times> string) list" where
  "spawn_loop [] threads = threads"
| "spawn_loop ((folder_name, file_dict) # rest) threads =
     (let tpt_file = file_dict ''TPT''; tzt_file = file_dict ''TZT''; txt_file = file_dict ''TXT'' in
      if truthy tpt_file \<and> truthy tzt_file \<and> truthy txt_file
      then spawn_loop rest (threads @ [(the tpt_file, the tzt_file, the txt_file)])
      else spawn_loop rest threads)"

definition spawned :: "(string \<times> file_dict) list \<Rightarrow> (string \<times> string \<times> string) list" where
  "spawned files = spawn_loop files []"

section \<open>The admission semaphore\<close>

text \<open>
  Every worker runs \<open>semaphore.acquire()\<close>, then the body in a \<open>try\<close>, then
  \<open>semaphore.release()\<close> in the \<open>finally\<close>, whether the body returned or raised. A worker
  is waiting (started, not yet past \<open>acquire\<close>), holding a slot, or has released it.
  \<open>Semaphore(max_threads)\<close> starts with \<open>max_threads\<close> permits; \<open>acquire\<close> can only
  proceed while a permit is left and takes one, \<open>release\<close> gives one back.

  An execution is a schedule: the events of all workers in the order in which they
  happen. \<open>fire\<close> is \<open>None\<close> for an event that cannot happen in the state (an \<open>acquire\<close>
  that would block, an event of a worker that is not at that point of its code).
\<close>

datatype pc = Waiting | Holding | Released

datatype event = Acquire nat | Release nat

record pool =
  permits :: nat
  workers :: "pc list"

definition start_pool :: "nat \<Rightarrow> nat \<Rightarrow> pool" where
  "start_pool max_threads n = \<lparr>permits = max_threads, workers = replicate n Waiting\<rparr>"

fun fire :: "event \<Rightarrow> pool \<Rightarrow> pool option" where
  "fire (Acquire i) s =
     (if i < length (workers s) \<and> workers s ! i = Waiting \<and> 0 < permits s
      then Some \<lparr>permits = permits s - 1, workers = (workers s)[i := Holding]\<rparr>
      else None)"
| "fire (Release i) s =
     (if i < length (workers s) \<and> workers s ! i = Holding
      then Some \<lparr>permits = permits s + 1, workers = (workers s)[i := Released]\<rparr>
      else None)"

fun run_schedule :: "event list \<Rightarrow> pool \<Rightarrow> pool option" where
  "run_schedule [] s = Some s"
| "run_schedule (e # es) s = (case fire e s of None \<Rightarrow> None | Some s' \<Rightarrow> run_schedule es s')"

definition holders :: "pool \<Rightarrow> nat" where
  "holders s = length (filter (\<lambda>p. p = Holding) (workers s))"

section \<open>merge_data on a store of list objects\<close>

text \<open>
  Python lists are objects with an identity. The store holds them by address: a row
  (a list of fields, which are immutable \<open>str\<close> or \<open>None\<close>) or a table (a list of
  addresses of rows). The arguments of \<open>merge_data\<close> are addresses of tables. A new list
  is put at the next free address; \<open>list.append\<close> is the only operation that changes an
  object in place. An address that holds the wrong kind of object does not occur for
  lists of row lists; the model answers TypeError.
\<close>

datatype obj = Row "field list" | Table "nat list"

type_synonym heap = "obj list"

definition new_obj :: "obj \<Rightarrow> heap \<Rightarrow> error + (heap \<times> nat)" where
  "new_obj ob h = Inr (h @ [ob], length h)"

definition get_row :: "heap \<Rightarrow> nat \<Rightarrow> error + field list" where
  "get_row h a =
     (if a < length h then (case h ! a of Row fs \<Rightarrow> Inr fs | Table _ \<Rightarrow> Inl TypeError)
      else Inl TypeError)"

definition get_table :: "heap \<Rightarrow> nat \<Rightarrow> error + nat list" where
  "get_table h a =
     (if a < length h then (case h ! a of Table rs \<Rightarrow> Inr rs | Row _ \<Rightarrow> Inl TypeError)
      else Inl TypeError)"

text \<open>\<open>xs[lo:hi]\<close> and \<open>xs[lo:]\<close> build a new list.\<close>

definition list_slice :: "nat \<Rightarrow> nat \<Rightarrow> nat \<Rightarrow> heap \<Rightarrow> error + (heap \<times> nat)" where
  "list_slice lo hi a h = bnd (get_row h a) (\<lambda>fs. new_obj (Row (take (hi - lo) (drop lo fs))) h)"

definition list_slice_from :: "nat \<Rightarrow> nat \<Rightarrow> heap \<Rightarrow> error + (heap \<times> nat)" where
  "list_slice_from lo a h = bnd (get_row h a) (\<lambda>fs. new_obj (Row (drop lo fs)) h)"

text \<open>\<open>[xs[i]]\<close>: reads one field and builds a one-element list.\<close>

definition list_single :: "nat \<Rightarrow> nat \<Rightarrow> heap \<Rightarrow> error + (heap \<times> nat)" where
  "list_single a i h = bnd (get_row h a) (\<lambda>fs. bnd (index fs i) (\<lambda>v. new_obj (Row [v]) h))"

text \<open>\<open>xs + ys\<close> builds a new list and leaves both operands alone.\<close>

definition list_concat :: "nat \<Rightarrow> nat \<Rightarrow> heap \<Rightarrow> error + (heap \<times> nat)" where
  "list_concat a b h =
     bnd (get_row h a) (\<lambda>xs. bnd (get_row h b) (\<lambda>ys. new_obj (Row (xs @ ys)) h))"

text \<open>\<open>[None] * len(rows[0])\<close>.\<close>

definition placeholder :: "nat \<Rightarrow> heap \<Rightarrow> error + (heap \<times> nat)" where
  "placeholder rows h =
     bnd (get_table h rows) (\<lambda>rs. bnd (index rs 0) (\<lambda>r0. bnd (get_row h r0) (\<lambda>fs.
       new_obj (Row (replicate (length fs) None)) h)))"

text \<open>\<open>result.append(merged)\<close> changes the list at \<open>result\<close> in place.\<close>

definition list_append :: "nat \<Rightarrow> nat \<Rightarrow> heap \<Rightarrow> error + heap" where
  "list_append result merged h =
     bnd (get_table h result) (\<lambda>ms. Inr (h[result := Table (ms @ [merged])]))"

text \<open>
  The generator under \<open>next\<close>: for each row in turn the slice \<open>row[:4]\<close> is a new list,
  compared by value with \<open>station_info\<close>; the result is the matching row itself (an object
  of the input) or the default.
\<close>

fun next_match_h :: "nat \<Rightarrow> nat list \<Rightarrow> nat \<Rightarrow> heap \<Rightarrow> error + (heap \<times> nat)" where
  "next_match_h station_info [] dflt h = Inr (h, dflt)"
| "next_match_h station_info (r # rs) dflt h =
     bnd (list_slice 0 4 r h) (\<lambda>(h1, key).
     bnd (get_row h1 key) (\<lambda>k.
     bnd (get_row h1 station_info) (\<lambda>si.
     if k = si then Inr (h1, r) else next_match_h station_info rs dflt h1)))"

definition merge_row_h :: "nat \<Rightarrow> nat \<Rightarrow> nat \<Rightarrow> heap \<Rightarrow> error + (heap \<times> nat)" where
  "merge_row_h tpt_row tzt_data txt_data h =
     bnd (list_slice 0 4 tpt_row h) (\<lambda>(h1, station_info).
     bnd (get_table h1 tzt_data) (\<lambda>tzt_rows.
     bnd (placeholder tzt_data h1) (\<lambda>(h2, tzt_default).
     bnd (next_match_h station_info tzt_rows tzt_default h2) (\<lambda>(h3, tzt_row).
     bnd (get_table h3 txt_data) (\<lambda>txt_rows.
     bnd (placeholder txt_data h3) (\<lambda>(h4, txt_default).
     bnd (next_match_h station_info txt_rows txt_default h4) (\<lambda>(h5, txt_row).
     bnd (list_single tzt_row 6 h5) (\<lambda>(h6, t1).
     bnd (list_concat station_info t1 h6) (\<lambda>(h7, c1).
     bnd (list_slice 4 6 tpt_row h7) (\<lambda>(h8, t2).
     bnd (list_concat c1 t2 h8) (\<lambda>(h9, c2).
     bnd (list_slice 4 6 tzt_row h9) (\<lambda>(h10, t3).
     bnd (list_concat c2 t3 h10) (\<lambda>(h11, c3).
     bnd (list_single txt_row 4 h11) (\<lambda>(h12, t4).
     bnd (list_concat c3 t4 h12) (\<lambda>(h13, c4).
     bnd (list_slice_from 6 tpt_row h13) (\<lambda>(h14, t5).
     list_concat c4 t5 h14))))))))))))))))"

fun merge_loop_h :: "nat list \<Rightarrow> nat \<Rightarrow> nat \<Rightarrow> nat \<Rightarrow> heap \<Rightarrow> error + heap" where
  "merge_loop_h [] tzt_data txt_data result h = Inr h"
| "merge_loop_h (tpt_row # rest) tzt_data txt_data result h =
     bnd (merge_row_h tpt_row tzt_data txt_data h) (\<lambda>(h1, merged).
     bnd (list_append result merged h1) (\<lambda>h2.
     merge_loop_h rest tzt_data txt_data result h2))"

definition merge_data_h :: "nat \<Rightarrow> nat \<Rightarrow> nat \<Rightarrow> heap \<Rightarrow> error + (heap \<times> nat)" where
  "merge_data_h tpt_data tzt_data txt_data h =
     bnd (new_obj (Table []) h) (\<lambda>(h0, result).
     bnd (get_table h0 tpt_data) (\<lambda>tpt_rows.
     bnd (merge_loop_h tpt_rows tzt_data txt_data result h0) (\<lambda>h'.
     Inr (h', result))))"

text \<open>Reading a table of rows back out of the store.\<close>

fun read_rows :: "heap \<Rightarrow> nat list \<Rightarrow> error + mrow list" where
  "read_rows h [] = Inr []"
| "read_rows h (a # as) = bnd (get_row h a) (\<lambda>fs. bnd (read_rows h as) (\<lambda>rest. Inr (fs # rest)))"

definition read_table :: "heap \<Rightarrow> nat \<Rightarrow> error + mrow list" where
  "read_table h a = bnd (get_table h a) (read_rows h)"

section \<open>Vocabulary of the properties and example inputs\<close>

text \<open>
  The data rows of an angle-type export, as the specification describes them: the body
  without the two header rows, the trailing summary row and the rows of length 1.
\<close>

definition data_rows :: "row list \<Rightarrow> row list" where
  "data_rows data = filter (\<lambda>x. length x \<noteq> 1) (butlast (drop 2 data))"

text \<open>The right-hand side of the assignment to \<open>data[j]\<close> in round \<open>i\<close> (counted from 0).\<close>

definition annot :: "row \<Rightarrow> row \<Rightarrow> int \<Rightarrow> row \<Rightarrow> row" where
  "annot station_info date_info i old = station_info @ [str_int (i + 1)] @ old @ date_info"

text \<open>
  \<open>j\<close> is the first position in \<open>rows\<close> whose row has the first four fields \<open>key\<close>.
\<close>

definition first_match :: "row list \<Rightarrow> row \<Rightarrow> nat \<Rightarrow> bool" where
  "first_match rows key j =
     (j < length rows \<and> take 4 (rows ! j) = key \<and> (\<forall>k<j. take 4 (rows ! k) \<noteq> key))"

text \<open>
  An angle export that declares one round and the row count 1, with three data rows
  after one round separator.
\<close>

definition ex_angle_file :: "row list" where
  "ex_angle_file =
     [[''S1'', ''1'', ''1'', ''1.5''],
      [''x'', ''Date=2024-01-01'', ''Time=10:00:00''],
      [''1''],
      [''T1'', ''10'', ''20''],
      [''T2'', ''11'', ''21''],
      [''T3'', ''12'', ''22''],
      [''end'']]"

text \<open>Parsed rows of one station that share the key \<open>[S1, 1.5, 1, T1]\<close>.\<close>

definition ex_tpt :: "row list" where
  "ex_tpt = [[''S1'', ''1.5'', ''1'', ''T1'', ''10.1'', ''190.1'', ''2024-01-01'', ''10:00:00'']]"

definition ex_tzt :: "row list" where
  "ex_tzt =
     [[''S1'', ''1.5'', ''1'', ''T0'', ''80.0'', ''280.0'', ''1.1'', ''2024-01-01'', ''10:00:00''],
      [''S1'', ''1.5'', ''1'', ''T1'', ''90.5'', ''269.5'', ''1.6'', ''2024-01-01'', ''10:00:00''],
      [''S1'', ''1.5'', ''1'', ''T1'', ''91.5'', ''268.5'', ''1.7'', ''2024-01-01'', ''10:00:00'']]"

definition ex_txt :: "row list" where
  "ex_txt = [[''S1'', ''1.5'', ''1'', ''T1'', ''100.25'', ''2024-01-01'', ''10:00:00'']]"

text \<open>
  Three angle rows: \<open>T1\<close> has a match in \<open>ex_tzt\<close> and in \<open>ex_txt_mixed\<close>, \<open>T0\<close> only in
  \<open>ex_tzt\<close>, \<open>T9\<close> only in \<open>ex_txt_mixed\<close> (twice).
\<close>

definition ex_tpt_mixed :: "row list" where
  "ex_tpt_mixed =
     [[''S1'', ''1.5'', ''1'', ''T1'', ''10.1'', ''190.1'', ''2024-01-01'', ''10:00:00''],
      [''S1'', ''1.5'', ''1'', ''T0'', ''20.2'', ''200.2'', ''2024-01-01'', ''10:00:00''],
      [''S1'', ''1.5'', ''1'', ''T9'', ''30.3'', ''210.3'', ''2024-01-01'', ''10:00:00'']]"

definition ex_txt_mixed :: "row list" where
  "ex_txt_mixed =
     [[''S1'', ''1.5'', ''1'', ''T1'', ''100.25'', ''2024-01-01'', ''10:00:00''],
      [''S1'', ''1.5'', ''1'', ''T9'', ''55.5'', ''2024-01-01'', ''10:00:00''],
      [''S1'', ''1.5'', ''1'', ''T9'', ''66.6'', ''2024-01-01'', ''10:00:00'']]"

text \<open>
  Vocabulary for the store: \<open>grows h h'\<close> when \<open>h'\<close> is \<open>h\<close> with objects added at new
  addresses; \<open>allocs\<close> and \<open>fresh_row\<close> say it of the outcome of an operation, the latter
  also that the returned address is a new row; \<open>kept h h'\<close> when every object of \<open>h\<close> is
  in \<open>h'\<close> at its address with its contents; \<open>fresh_table h h' result\<close> when \<open>result\<close> is a
  table made after \<open>h\<close> whose entries are rows made after \<open>h\<close>; \<open>rows_in h as rows\<close>
  when the addresses \<open>as\<close> hold the rows \<open>rows\<close> of strings.
\<close>

definition grows :: "heap \<Rightarrow> heap \<Rightarrow> bool" where
  "grows h h' = (\<exists>ext. h' = h @ ext)"

definition allocs :: "heap \<Rightarrow> error + (heap \<times> 'a) \<Rightarrow> bool" where
  "allocs h r = (case r of Inl e \<Rightarrow> True | Inr (h', a) \<Rightarrow> grows h h')"

definition fresh_row :: "heap \<Rightarrow> error + (heap \<times> nat) \<Rightarrow> bool" where
  "fresh_row h r =
     (case r of Inl e \<Rightarrow> True
      | Inr (h', a) \<Rightarrow> grows h h' \<and> length h \<le> a \<and> a < length h' \<and> (\<exists>fs. h' ! a = Row fs))"

definition rows_in :: "heap \<Rightarrow> nat list \<Rightarrow> row list \<Rightarrow> bool" where
  "rows_in h as rows = list_all2 (\<lambda>a r. get_row h a = Inr (map Some r)) as rows"

definition kept :: "heap \<Rightarrow> heap \<Rightarrow> bool" where
  "kept h h' = (length h \<le> length h' \<and> (\<forall>a<length h. h' ! a = h ! a))"

definition fresh_table :: "heap \<Rightarrow> heap \<Rightarrow> nat \<Rightarrow> bool" where
  "fresh_table h h' result =
     (length h \<le> result \<and> result < length h' \<and>
      (\<exists>ms. h' ! result = Table ms \<and>
         (\<forall>m\<in>set ms. length h \<le> m \<and> m < length h' \<and> (\<exists>fs. h' ! m = Row fs))))"

text \<open>
  The three batches of the specification's ordering example, each with one record
  whose fields 10 and 11 are the date and the time.
\<close>

definition ex_batch :: "string \<Rightarrow> string \<Rightarrow> batch" where
  "ex_batch d t =
     [[Some ''S1'', Some ''1.5'', Some ''1'', Some ''T1'', Some ''1.6'', Some ''10.1'',
       Some ''190.1'', Some ''90.5'', Some ''269.5'', Some ''100.25'', Some d, Some t]]"

definition ex_batches :: "batch list" where
  "ex_batches =
     [ex_batch ''2024-01-02'' ''10:00:00'', ex_batch ''2024-01-01'' ''09:00:00'',
      ex_batch ''2024-01-03'' ''08:00:00'']"

text \<open>A discovered mapping: one group without a zenith file and one complete group.\<close>

definition ex_files :: "(string \<times> file_dict) list" where
  "ex_files =
     [(''A'', [''TPT'' \<mapsto> ''in/A/a.TPT'', ''TXT'' \<mapsto> ''in/A/a.TXT'']),
      (''B'', [''TPT'' \<mapsto> ''in/B/b.TPT'', ''TZT'' \<mapsto> ''in/B/b.TZT'', ''TXT'' \<mapsto> ''in/B/b.TXT''])]"

text \<open>
  A complete triple whose angle export has the two header rows and the summary row
  and nothing between them.
\<close>

definition ex_empty_angle_file :: "row list" where
  "ex_empty_angle_file =
     [[''S1'', ''1'', ''1'', ''1.5''], [''x'', ''Date=2024-01-01'', ''Time=10:00:00''], [''end'']]"

definition ex_distance_file :: "row list" where
  "ex_distance_file =
     [[''S1'', ''1.5''],
      [''x'', ''Date=2024-01-01'', ''y'', ''Time=10:00:00''],
      [''Dist Start''],
      [''1'', ''T1'', ''100.25''],
      [''Dist End''],
      [''end'']]"




definition fresh_logger :: logger where
  "fresh_logger = \<lparr>has_handler = True, written = 0\<rparr>"

definition save_ok :: "mrow list \<Rightarrow> exc + unit" where
  "save_ok rows = Inr ()"





text \<open>A store with the tables and rows of \<open>ex_tpt\<close>, \<open>ex_tzt\<close> and \<open>ex_txt\<close>.\<close>

definition ex_heap :: heap where
  "ex_heap =
     [Table [3], Table [4, 5, 6], Table [7],
      Row (map Some (ex_tpt ! 0)),
      Row (map Some (ex_tzt ! 0)), Row (map Some (ex_tzt ! 1)), Row (map Some (ex_tzt ! 2)),
      Row (map Some (ex_txt ! 0))]"


section \<open>Basic facts\<close>
lemma bnd_Inr_iff: "bnd m f = Inr y \<longleftrightarrow> (\<exists>x. m = Inr x \<and> f x = Inr y)"
  by (cases m) (auto simp: bnd_def)

lemma bnd_simps [simp]: "bnd (Inl e) f = Inl e" "bnd (Inr x) f = f x"
  by (simp_all add: bnd_def)

lemma list_of_length_3: "length xs = 3 \<Longrightarrow> xs = [xs ! 0, xs ! 1, xs ! 2]"
  by (auto simp: list_eq_iff_nth_eq less_Suc_eq numeral_3_eq_3 numeral_2_eq_2)

lemma index_Inr: "i < length xs \<Longrightarrow> index xs i = Inr (xs ! i)"
  by (simp add: index_def)

lemma last_item_Inr: "xs \<noteq> [] \<Longrightarrow> last_item xs = Inr (last xs)"
  by (cases xs) (simp_all add: last_item_def)


section \<open>Properties of processing_angle\<close>

lemma map_snd_filter_enumerate:
  "map snd (filter (\<lambda>(i, x). P x) (enumerate n xs)) = filter P xs"
  by (induction xs arbitrary: n) auto

lemma remove_separators_eq_filter:
  "remove_indices (separator_indices data) data = filter (\<lambda>x. length x \<noteq> 1) data"
proof -
  have sep: "set (separator_indices data) = {i. i < length data \<and> length (data ! i) = 1}"
    by (auto simp: separator_indices_def in_set_enumerate_eq image_iff)
  have "filter (\<lambda>(i, x). i \<notin> set (separator_indices data)) (enumerate 0 data)
        = filter (\<lambda>(i, x). length x \<noteq> 1) (enumerate 0 data)"
    by (rule filter_cong) (auto simp: sep in_set_enumerate_eq)
  then show ?thesis
    by (simp add: remove_indices_def map_snd_filter_enumerate)
qed

lemma digit_val_le: "is_digit c \<Longrightarrow> digit_val c \<le> 9"
  unfolding is_digit_def digit_val_def by linarith

lemma digits_val_snoc: "digits_val (ds @ [c]) = digits_val ds * 10 + digit_val c"
  by (simp add: digits_val_def)

lemma digits_val_bound:
  "\<forall>c\<in>set ds. is_digit c \<Longrightarrow> digits_val ds < 10 ^ length ds"
proof (induction ds rule: rev_induct)
  case Nil
  show ?case by (simp add: digits_val_def)
next
  case (snoc c ds)
  then have "digits_val ds < 10 ^ length ds" and "digit_val c \<le> 9"
    by (auto intro: digit_val_le)
  then have "digits_val ds * 10 + digit_val c < 10 ^ length ds * 10" by linarith
  then show ?case by (simp add: digits_val_snoc mult.commute)
qed

lemma int_digits_digits:
  "int_digits cs = Inr ds \<Longrightarrow> \<forall>c\<in>set ds. is_digit c"
proof (induction cs arbitrary: ds rule: int_digits.induct)
  case 1
  then show ?case by simp
next
  case (2 c)
  then show ?case by (cases "is_digit c") auto
next
  case (3 c d cs)
  show ?case
  proof (cases "is_digit c")
    case True
    with "3.prems" obtain ds' where "int_digits (d # cs) = Inr ds'" "ds = c # ds'"
      by (auto simp: bnd_Inr_iff)
    with "3.IH"(1)[OF True] True show ?thesis by simp
  next
    case False
    show ?thesis
    proof (cases "c = CHR ''_'' \<and> is_digit d")
      case u: True
      with False "3.prems" obtain ds' where "int_digits cs = Inr ds'" "ds = d # ds'"
        by (auto simp: bnd_Inr_iff)
      with "3.IH"(2)[OF False u] u show ?thesis by simp
    next
      case nu: False
      with False "3.prems" show ?thesis by simp
    qed
  qed
qed

lemma int_literal_bound:
  assumes "int_literal s = Inr n"
  shows "n < 10 ^ int_max_str_digits"
proof -
  from assms obtain c cs ds where d: "is_digit c" "int_digits cs = Inr ds"
    and l: "length (c # ds) \<le> int_max_str_digits" and n: "n = digits_val (c # ds)"
    by (auto simp: int_literal_def bnd_Inr_iff split: list.splits if_splits)
  from d int_digits_digits have "\<forall>x\<in>set (c # ds). is_digit x" by auto
  then have "n < 10 ^ length (c # ds)" unfolding n by (rule digits_val_bound)
  also have "\<dots> \<le> 10 ^ int_max_str_digits" using l by (intro power_increasing) auto
  finally show ?thesis .
qed

lemma py_int_bound:
  assumes "py_int s = Inr n"
  shows "n < 10 ^ int_max_str_digits"
proof -
  from assms obtain t m where "int_literal t = Inr m" and "n = int m \<or> n = - int m"
    by (auto simp: py_int_def bnd_Inr_iff split: list.splits if_splits)
  note this(2)
  moreover have "int m < int (10 ^ int_max_str_digits)"
    using int_literal_bound[of t m] \<open>int_literal t = Inr m\<close> by (simp only: of_nat_less_iff)
  moreover have "int (10 ^ int_max_str_digits) = 10 ^ int_max_str_digits"
    by simp
  ultimately show ?thesis by linarith
qed

lemma str_nat_length:
  "n < 10 ^ k \<Longrightarrow> 0 < k \<Longrightarrow> length (str_nat n) \<le> k"
proof (induction n arbitrary: k rule: str_nat.induct)
  case (1 n)
  show ?case
  proof (cases "n < 10")
    case True
    with "1.prems" show ?thesis by (simp add: Suc_leI)
  next
    case False
    obtain k' where k: "k = Suc k'" using "1.prems"(2) by (cases k) auto
    have "k' \<noteq> 0" using False "1.prems"(1) by (cases k') (auto simp: k)
    moreover have "n div 10 < 10 ^ k'" using "1.prems"(1) by (simp add: k less_mult_imp_div_less mult.commute)
    ultimately have "length (str_nat (n div 10)) \<le> k'" using "1.IH"[OF False] by simp
    with False show ?thesis by (subst str_nat.simps) (simp add: k)
  qed
qed

lemma int_max_str_digits_pos: "0 < int_max_str_digits"
  by (simp add: int_max_str_digits_def)

lemma py_str_Inr:
  assumes "0 \<le> i" "i < 10 ^ int_max_str_digits"
  shows "py_str i = Inr (str_int i)"
proof -
  have "int (10 ^ int_max_str_digits) = 10 ^ int_max_str_digits"
    by simp
  with assms have "i < int (10 ^ int_max_str_digits)" by linarith
  with assms(1) have "nat i < 10 ^ int_max_str_digits"
    by (simp only: nat_less_iff)
  then have "length (str_nat (nat i)) \<le> int_max_str_digits"
    using int_max_str_digits_pos by (rule str_nat_length)
  with assms(1) show ?thesis by (simp add: py_str_def)
qed


lemma py_int_examples:
  "py_int '' 1_0 '' = Inr 10" "py_int ''-007'' = Inr (- 7)"
  "py_int (CHR 0x1F # ''1'') = Inl ValueError" "py_int (''1'' @ [CHR 0x1C]) = Inl ValueError"
  "py_int ''1__0'' = Inl ValueError" "py_int ''- 5'' = Inl ValueError" "py_int [] = Inl ValueError"
  by code_simp+

lemma inner_loop_upto:
  assumes "0 \<le> a \<or> b < a" "limit = int (length data)" "py_str (i + 1) = Inr (str_int (i + 1))"
  shows "\<exists>data'. inner_loop si di i limit [a..b] data = Inr data' \<and> length data' = length data \<and>
           (\<forall>k<length data. data' ! k = (if a \<le> int k \<and> int k \<le> b then annot si di i (data ! k) else data ! k))"
  using assms
proof (induction "nat (b + 1 - a)" arbitrary: a data)
  case 0
  then have "[a..b] = []" by simp
  with 0 show ?case by auto
next
  case (Suc n)
  then have ab: "a \<le> b" and a0: "0 \<le> a" by auto
  have up: "[a..b] = a # [a + 1..b]" using ab by (simp add: upto_rec1)
  show ?case
  proof (cases "a < limit")
    case False
    with Suc.prems show ?thesis by (auto simp: up)
  next
    case True
    let ?d = "data[nat a := annot si di i (data ! nat a)]"
    have g: "py_getitem data a = Inr (data ! nat a)"
      using True a0 Suc.prems by (simp add: py_getitem_def)
    have s: "py_setitem data a v = Inr (data[nat a := v])" for v
      using True a0 Suc.prems by (simp add: py_setitem_def)
    have "n = nat (b + 1 - (a + 1))" using Suc.hyps(2) by simp
    moreover have "0 \<le> a + 1 \<or> b < a + 1" using a0 by simp
    moreover have "limit = int (length ?d)" using Suc.prems by simp
    moreover note Suc.prems(3)
    ultimately obtain data' where
      r: "inner_loop si di i limit [a + 1..b] ?d = Inr data'" and l: "length data' = length ?d"
      and n: "\<forall>k<length ?d. data' ! k = (if a + 1 \<le> int k \<and> int k \<le> b then annot si di i (?d ! k) else ?d ! k)"
      using Suc.hyps(1)[of "a + 1" ?d] by blast
    have "inner_loop si di i limit [a..b] data = Inr data'"
      using True g s r Suc.prems(3) by (simp add: up annot_def)
    moreover have "length data' = length data" using l by simp
    moreover have "data' ! k = (if a \<le> int k \<and> int k \<le> b then annot si di i (data ! k) else data ! k)"
      if "k < length data" for k
    proof (cases "int k = a")
      case True
      then have "k = nat a" by simp
      with n that ab a0 show ?thesis by (simp)
    next
      case False
      then have "k \<noteq> nat a" using a0 by auto
      with n that False show ?thesis by (auto simp: nth_list_update)
    qed
    ultimately show ?thesis by blast
  qed
qed


lemma div_eq_of_between:
  fixes k rows i :: int
  assumes "0 < rows" "i * rows \<le> k" "k < (i + 1) * rows"
  shows "k div rows = i"
proof -
  have "k = rows * i + (k - i * rows)" by (simp add: algebra_simps)
  moreover have "0 \<le> k - i * rows" using assms by simp
  moreover have "k - i * rows < rows" using assms by (simp add: algebra_simps)
  ultimately show ?thesis by (rule int_div_pos_eq)
qed

lemma outer_loop_upto:
  assumes "0 \<le> i0" "limit = int (length data)"
    and "\<forall>i. i0 \<le> i \<and> i < r \<longrightarrow> py_str (i + 1) = Inr (str_int (i + 1))"
  shows "\<exists>data'. outer_loop si di rows limit [i0..r - 1] data = Inr data' \<and> length data' = length data \<and>
           (\<forall>k<length data. data' ! k =
              (if 0 < rows \<and> i0 * rows \<le> int k \<and> int k < r * rows
               then annot si di (int k div rows) (data ! k) else data ! k))"
  using assms
proof (induction "nat (r - i0)" arbitrary: i0 data)
  case 0
  then have "[i0..r - 1] = []" by simp
  moreover have "\<not> (0 < rows \<and> i0 * rows \<le> int k \<and> int k < r * rows)" for k
  proof
    assume a: "0 < rows \<and> i0 * rows \<le> int k \<and> int k < r * rows"
    from 0 have "r \<le> i0" by simp
    then have "r * rows \<le> i0 * rows" using a by (simp add: mult_right_mono)
    with a show False by linarith
  qed
  ultimately show ?case by auto
next
  case (Suc n)
  then have lt: "i0 < r" by auto
  have up: "[i0..r - 1] = i0 # [i0 + 1..r - 1]" using lt by (simp add: upto_rec1)
  let ?a = "i0 * rows" and ?b = "(i0 + 1) * rows - 1"
  have "0 \<le> ?a \<or> ?b < ?a"
  proof (cases "0 < rows")
    case True
    then show ?thesis using Suc.prems(1) by simp
  next
    case False
    then have "(i0 + 1) * rows \<le> i0 * rows" using Suc.prems(1)
      by (simp add: distrib_right)
    then show ?thesis by simp
  qed
  then obtain d1 where
    i1: "inner_loop si di i0 limit [?a..?b] data = Inr d1" and l1: "length d1 = length data"
    and n1: "\<forall>k<length data. d1 ! k = (if ?a \<le> int k \<and> int k \<le> ?b then annot si di i0 (data ! k) else data ! k)"
    using inner_loop_upto[of ?a ?b limit data i0 si di] Suc.prems(2,3) lt by blast
  have "n = nat (r - (i0 + 1))" using Suc.hyps(2) by simp
  moreover have "0 \<le> i0 + 1" using Suc.prems(1) by simp
  moreover have "limit = int (length d1)" using Suc.prems(2) l1 by simp
  moreover have "\<forall>i. i0 + 1 \<le> i \<and> i < r \<longrightarrow> py_str (i + 1) = Inr (str_int (i + 1))"
    using Suc.prems(3) by simp
  ultimately obtain d2 where
    o2: "outer_loop si di rows limit [i0 + 1..r - 1] d1 = Inr d2" and l2: "length d2 = length d1"
    and n2: "\<forall>k<length d1. d2 ! k =
              (if 0 < rows \<and> (i0 + 1) * rows \<le> int k \<and> int k < r * rows
               then annot si di (int k div rows) (d1 ! k) else d1 ! k)"
    using Suc.hyps(1)[of "i0 + 1" d1] by blast
  have "outer_loop si di rows limit [i0..r - 1] data = Inr d2"
    using i1 o2 by (simp add: up py_range_def)
  moreover have "length d2 = length data" using l1 l2 by simp
  moreover have "d2 ! k = (if 0 < rows \<and> i0 * rows \<le> int k \<and> int k < r * rows
               then annot si di (int k div rows) (data ! k) else data ! k)"
    if k: "k < length data" for k
  proof (cases "0 < rows")
    case False
    then have "?b < ?a" using Suc.prems(1) by (simp add: distrib_right)
    with False n1 n2 k l1 show ?thesis by auto
  next
    case rp: True
    have le: "(i0 + 1) * rows \<le> r * rows" using lt rp by (simp add: mult_right_mono)
    consider "int k < ?a" | "?a \<le> int k" "int k < (i0 + 1) * rows" | "(i0 + 1) * rows \<le> int k"
      by linarith
    then show ?thesis
    proof cases
      case 1
      then have "int k < (i0 + 1) * rows" using rp by (simp add: distrib_right)
      with 1 n1 n2 k l1 show ?thesis by auto
    next
      case 2
      then have dv: "int k div rows = i0" using rp by (intro div_eq_of_between) auto
      have lr: "int k < r * rows" using 2 le by linarith
      have "d1 ! k = annot si di i0 (data ! k)" using n1 k 2 by simp
      moreover have "d2 ! k = d1 ! k" using n2 k l1 2 by simp
      ultimately show ?thesis using 2 rp lr dv by simp
    next
      case 3
      then have "?a \<le> int k" using rp by (simp add: distrib_right)
      with 3 n1 n2 k l1 rp show ?thesis by auto
    qed
  qed
  ultimately show ?case by blast
qed



lemma py_setitem_length: "py_setitem xs j v = Inr ys \<Longrightarrow> length ys = length xs"
  by (auto simp: py_setitem_def Let_def split: if_splits)

lemma inner_loop_length:
  "inner_loop si di i limit js data = Inr out \<Longrightarrow> length out = length data"
proof (induction js arbitrary: data)
  case Nil
  then show ?case by simp
next
  case (Cons j js)
  show ?case
  proof (cases "j < limit")
    case True
    with Cons.prems obtain rn old d1 where
      "py_setitem data j (si @ [rn] @ old @ di) = Inr d1"
      "inner_loop si di i limit js d1 = Inr out"
      by (auto simp: bnd_Inr_iff)
    then show ?thesis using Cons.IH py_setitem_length by fastforce
  next
    case False
    with Cons.prems show ?thesis by simp
  qed
qed

lemma outer_loop_length:
  "outer_loop si di rows limit is data = Inr out \<Longrightarrow> length out = length data"
proof (induction "is" arbitrary: data)
  case Nil
  then show ?case by simp
next
  case (Cons i "is")
  then obtain d1 where
    "inner_loop si di i limit (py_range (i * rows) ((i + 1) * rows)) data = Inr d1"
    "outer_loop si di rows limit is d1 = Inr out"
    by (auto simp: bnd_Inr_iff)
  then show ?case using Cons.IH inner_loop_length by fastforce
qed

lemma processing_angle_length:
  assumes "processing_angle data = Inr out"
  shows "length out = length (data_rows data)"
proof -
  from assms obtain si di rows limit "is" where
    "outer_loop si di rows limit is (data_rows data) = Inr out"
    by (auto simp: processing_angle_def bnd_Inr_iff Let_def remove_separators_eq_filter data_rows_def)
  then show ?thesis by (rule outer_loop_length)
qed

text \<open>
  C1, as the code has it. For an angle-type export whose header declares the round
  count \<open>R\<close> and the row count \<open>K\<close> (\<open>int\<close> returns them for the two header fields), and
  whose second header row carries the two
  \<open>key=value\<close> tokens, \<open>processing_angle\<close> returns every one of the \<open>M\<close> data rows, in
  order. A round takes \<open>K + 1\<close> rows: the row at position \<open>j\<close> below \<open>R * (K + 1)\<close> is
  prefixed with station, instrument height and the round number \<open>j div (K + 1) + 1\<close> and
  suffixed with date and time; the rows from position \<open>R * (K + 1)\<close> on are returned as
  they were read, without prefix or suffix.
\<close>

theorem processing_angle_rows:
  assumes "2 \<le> length data" "3 \<le> length (data ! 0)" "3 \<le> length (data ! 1)"
    and "py_int (data ! 0 ! 1) = Inr R" "py_int (data ! 0 ! 2) = Inr K"
    and "1 < length (py_split CHR ''='' (data ! 1 ! 1))"
    and "1 < length (py_split CHR ''='' (data ! 1 ! 2))"
  shows "\<exists>out. processing_angle data = Inr out \<and> length out = length (data_rows data) \<and>
           (\<forall>j<length (data_rows data). out ! j =
              (if 0 < K + 1 \<and> int j < R * (K + 1)
               then [data ! 0 ! 0, last (data ! 0), str_int (int j div (K + 1) + 1)]
                    @ data_rows data ! j
                    @ [py_split CHR ''='' (data ! 1 ! 1) ! 1, py_split CHR ''='' (data ! 1 ! 2) ! 1]
               else data_rows data ! j))"
proof -
  let ?si = "[data ! 0 ! 0, last (data ! 0)]"
  let ?di = "[py_split CHR ''='' (data ! 1 ! 1) ! 1, py_split CHR ''='' (data ! 1 ! 2) ! 1]"
  let ?body = "data_rows data"
  have ne: "data ! 0 \<noteq> []" using assms(2) by auto
  have pa: "processing_angle data =
          outer_loop ?si ?di (K + 1) (int (length ?body)) [0..R - 1] ?body"
  proof -
    have "index data 0 = Inr (data ! 0)" "index data 1 = Inr (data ! 1)"
      using assms(1) by (auto simp: index_def)
    moreover have "index (data ! 0) 0 = Inr (data ! 0 ! 0)" "index (data ! 0) 1 = Inr (data ! 0 ! 1)"
      "index (data ! 0) 2 = Inr (data ! 0 ! 2)"
      using assms(2) by (auto simp: index_def)
    moreover have "index (data ! 1) 1 = Inr (data ! 1 ! 1)" "index (data ! 1) 2 = Inr (data ! 1 ! 2)"
      using assms(3) by (auto simp: index_def)
    moreover have "index (py_split CHR ''='' (data ! 1 ! 1)) 1 = Inr (py_split CHR ''='' (data ! 1 ! 1) ! 1)"
      "index (py_split CHR ''='' (data ! 1 ! 2)) 1 = Inr (py_split CHR ''='' (data ! 1 ! 2) ! 1)"
      using assms(6,7) by (auto simp: index_def)
    moreover have "last_item (data ! 0) = Inr (last (data ! 0))"
      using ne by (rule last_item_Inr)
    ultimately show ?thesis
      using assms(4,5)
      by (simp add: processing_angle_def Let_def py_range_def
          remove_separators_eq_filter data_rows_def)
  qed
  have rounds: "\<forall>i. 0 \<le> i \<and> i < R \<longrightarrow> py_str (i + 1) = Inr (str_int (i + 1))"
  proof (intro allI impI)
    fix i assume i: "0 \<le> i \<and> i < R"
    have "R < 10 ^ int_max_str_digits" using assms(4) by (rule py_int_bound)
    with i have "i + 1 < 10 ^ int_max_str_digits" by linarith
    moreover have "0 \<le> i + 1" using i by simp
    ultimately show "py_str (i + 1) = Inr (str_int (i + 1))" by (rule py_str_Inr[rotated])
  qed
  obtain out where
    o: "outer_loop ?si ?di (K + 1) (int (length ?body)) [0..R - 1] ?body = Inr out"
    and l: "length out = length ?body"
    and n: "\<forall>k<length ?body. out ! k =
              (if 0 < K + 1 \<and> 0 * (K + 1) \<le> int k \<and> int k < R * (K + 1)
               then annot ?si ?di (int k div (K + 1)) (?body ! k) else ?body ! k)"
    using outer_loop_upto[of 0 "int (length ?body)" ?body R ?si ?di "K + 1"] rounds by blast
  from n have "\<forall>j<length ?body. out ! j =
              (if 0 < K + 1 \<and> int j < R * (K + 1)
               then ?si @ [str_int (int j div (K + 1) + 1)] @ ?body ! j @ ?di
               else ?body ! j)"
    by (simp add: annot_def)
  with pa o l show ?thesis by simp
qed


theorem processing_angle_rows_witness:
  "processing_angle ex_angle_file =
     Inr [[''S1'', ''1.5'', ''1'', ''T1'', ''10'', ''20'', ''2024-01-01'', ''10:00:00''],
          [''S1'', ''1.5'', ''1'', ''T2'', ''11'', ''21'', ''2024-01-01'', ''10:00:00''],
          [''T3'', ''12'', ''22'']]"
proof -
  have d: "data_rows ex_angle_file = [[''T1'', ''10'', ''20''], [''T2'', ''11'', ''21''], [''T3'', ''12'', ''22'']]"
    by code_simp
  have h: "2 \<le> length ex_angle_file" "3 \<le> length (ex_angle_file ! 0)"
    "3 \<le> length (ex_angle_file ! 1)"
    "py_int (ex_angle_file ! 0 ! 1) = Inr 1" "py_int (ex_angle_file ! 0 ! 2) = Inr 1"
    "1 < length (py_split CHR ''='' (ex_angle_file ! 1 ! 1))"
    "1 < length (py_split CHR ''='' (ex_angle_file ! 1 ! 2))"
    by code_simp+
  from processing_angle_rows[OF h] obtain out where
    o: "processing_angle ex_angle_file = Inr out"
    and l: "length out = length (data_rows ex_angle_file)"
    and n: "\<forall>j<length (data_rows ex_angle_file). out ! j =
              (if 0 < (1::int) + 1 \<and> int j < 1 * (1 + 1)
               then [ex_angle_file ! 0 ! 0, last (ex_angle_file ! 0), str_int (int j div (1 + 1) + 1)]
                    @ data_rows ex_angle_file ! j
                    @ [py_split CHR ''='' (ex_angle_file ! 1 ! 1) ! 1,
                       py_split CHR ''='' (ex_angle_file ! 1 ! 2) ! 1]
               else data_rows ex_angle_file ! j)"
    by blast
  have e: "ex_angle_file ! 0 ! 0 = ''S1''" "last (ex_angle_file ! 0) = ''1.5''"
    "py_split CHR ''='' (ex_angle_file ! 1 ! 1) ! 1 = ''2024-01-01''"
    "py_split CHR ''='' (ex_angle_file ! 1 ! 2) ! 1 = ''10:00:00''"
    "str_int 1 = ''1''"
    by code_simp+
  have l3: "length out = 3" using l by (simp add: d)
  have "out ! 0 = [''S1'', ''1.5'', ''1'', ''T1'', ''10'', ''20'', ''2024-01-01'', ''10:00:00'']"
    using n[unfolded e, rule_format, of 0] by (simp add: d e)
  moreover have "out ! 1 = [''S1'', ''1.5'', ''1'', ''T2'', ''11'', ''21'', ''2024-01-01'', ''10:00:00'']"
    using n[unfolded e, rule_format, of 1] by (simp add: d e)
  moreover have "out ! 2 = [''T3'', ''12'', ''22'']"
    using n[rule_format, of 2] by (simp add: d)
  ultimately have "out = [[''S1'', ''1.5'', ''1'', ''T1'', ''10'', ''20'', ''2024-01-01'', ''10:00:00''],
          [''S1'', ''1.5'', ''1'', ''T2'', ''11'', ''21'', ''2024-01-01'', ''10:00:00''],
          [''T3'', ''12'', ''22'']]"
    using list_of_length_3[OF l3] by metis
  with o show ?thesis by simp
qed

text \<open>
  C1 as stated fails on \<open>ex_angle_file\<close>: the header declares \<open>R = 1\<close> and \<open>K = 1\<close> and
  there are three data rows, so the claim promises \<open>min (1 * 1) 3 = 1\<close> record. The code
  returns three rows; the second is still in round 1, and the third, beyond the
  capacity, appears in the output unprefixed. Reading the row count as the code's
  \<open>K + 1 = 2\<close> does not save the claim either: \<open>min (1 * 2) 3 = 2\<close>.
\<close>

theorem processing_angle_capacity_counterexample:
  "py_int (ex_angle_file ! 0 ! 1) = Inr 1 \<and> py_int (ex_angle_file ! 0 ! 2) = Inr 1 \<and>
   length (data_rows ex_angle_file) = 3 \<and>
   processing_angle ex_angle_file =
     Inr [[''S1'', ''1.5'', ''1'', ''T1'', ''10'', ''20'', ''2024-01-01'', ''10:00:00''],
          [''S1'', ''1.5'', ''1'', ''T2'', ''11'', ''21'', ''2024-01-01'', ''10:00:00''],
          [''T3'', ''12'', ''22'']] \<and>
   length [[''S1'', ''1.5'', ''1'', ''T1'', ''10'', ''20'', ''2024-01-01'', ''10:00:00''],
          [''S1'', ''1.5'', ''1'', ''T2'', ''11'', ''21'', ''2024-01-01'', ''10:00:00''],
          [''T3'', ''12'', ''22'']] \<noteq> min (1 * 1) (length (data_rows ex_angle_file)) \<and>
   length [[''S1'', ''1.5'', ''1'', ''T1'', ''10'', ''20'', ''2024-01-01'', ''10:00:00''],
          [''S1'', ''1.5'', ''1'', ''T2'', ''11'', ''21'', ''2024-01-01'', ''10:00:00''],
          [''T3'', ''12'', ''22'']] \<noteq> min (1 * (1 + 1)) (length (data_rows ex_angle_file))"
  by code_simp

section \<open>Properties of merge_data\<close>

lemma merge_loop_Inr_iff:
  "merge_loop tpt tzt txt acc = Inr res \<longleftrightarrow>
     (\<exists>ms. list_all2 (\<lambda>r m. merge_row r tzt txt = Inr m) tpt ms \<and> res = acc @ ms)"
proof (induction tpt arbitrary: acc)
  case Nil
  show ?case by auto
next
  case (Cons r rs)
  show ?case
    by (auto simp: bnd_Inr_iff Cons.IH list_all2_Cons1)
qed

lemma merge_data_Inr_iff:
  "merge_data tpt tzt txt = Inr res \<longleftrightarrow> list_all2 (\<lambda>r m. merge_row r tzt txt = Inr m) tpt res"
  by (simp add: merge_data_def merge_loop_Inr_iff)

lemma merge_row_key: "merge_row r tzt txt = Inr m \<Longrightarrow> \<exists>rest. m = map Some (take 4 r) @ rest"
  by (auto simp: merge_row_def Let_def bnd_Inr_iff)

lemma next_match_first:
  assumes "j < length rows" "take 4 (rows ! j) = key" "\<forall>k<j. take 4 (rows ! k) \<noteq> key"
  shows "next_match key rows dflt = map Some (rows ! j)"
  using assms
proof (induction rows arbitrary: j)
  case Nil
  then show ?case by simp
next
  case (Cons r rs)
  show ?case
  proof (cases j)
    case 0
    with Cons.prems show ?thesis by simp
  next
    case (Suc j')
    from Cons.prems(3) have "take 4 r \<noteq> key" by (auto simp: Suc)
    moreover have "next_match key rs dflt = map Some (rs ! j')"
      using Cons.prems Suc by (intro Cons.IH) auto
    ultimately show ?thesis by (simp add: Suc)
  qed
qed

lemma next_match_none:
  "\<forall>r\<in>set rows. take 4 r \<noteq> key \<Longrightarrow> next_match key rows dflt = dflt"
  by (induction rows) auto


lemma next_match_cases:
  "next_match key rows dflt = dflt \<or> (\<exists>r\<in>set rows. next_match key rows dflt = map Some r)"
  by (induction rows) auto

lemma merge_row_zenith_gap:
  assumes "tzt_data \<noteq> []" "6 < length (tzt_data ! 0)"
    and "\<forall>r\<in>set tzt_data. take 4 r \<noteq> take 4 tpt_row"
    and "merge_row tpt_row tzt_data txt_data = Inr m"
  shows "\<exists>dist. m = map Some (take 4 tpt_row) @ [None] @ map Some (take 2 (drop 4 tpt_row))
                   @ [None, None] @ [dist] @ map Some (drop 6 tpt_row)"
proof -
  have z: "next_match (take 4 tpt_row) tzt_data d = d" for d
    using assms(3) by (rule next_match_none)
  from assms(1,2,4) show ?thesis
    by (auto simp: merge_row_def Let_def bnd_Inr_iff index_def z numeral_2_eq_2 min_def split: if_splits)
qed

lemma merge_row_distance_gap:
  assumes "txt_data \<noteq> []" "4 < length (txt_data ! 0)"
    and "\<forall>r\<in>set txt_data. take 4 r \<noteq> take 4 tpt_row"
    and "merge_row tpt_row tzt_data txt_data = Inr m"
  shows "\<exists>th zs. m = map Some (take 4 tpt_row) @ [th] @ map Some (take 2 (drop 4 tpt_row))
                   @ zs @ [None] @ map Some (drop 6 tpt_row)"
proof -
  have x: "next_match (take 4 tpt_row) txt_data d = d" for d
    using assms(3) by (rule next_match_none)
  from assms(1,2,4) show ?thesis
    by (auto simp: merge_row_def Let_def bnd_Inr_iff index_def x split: if_splits)
qed

lemma merge_row_returns:
  assumes "tzt_data \<noteq> []" "txt_data \<noteq> []"
    and "\<forall>r\<in>set tzt_data. 6 < length r" "\<forall>r\<in>set txt_data. 4 < length r"
  shows "\<exists>m. merge_row tpt_row tzt_data txt_data = Inr m"
proof -
  let ?z = "next_match (take 4 tpt_row) tzt_data (replicate (length (tzt_data ! 0)) None)"
  let ?x = "next_match (take 4 tpt_row) txt_data (replicate (length (txt_data ! 0)) None)"
  have "tzt_data ! 0 \<in> set tzt_data" "txt_data ! 0 \<in> set txt_data"
    using assms(1,2) by simp_all
  with assms(3,4) have l0: "6 < length (tzt_data ! 0)" "4 < length (txt_data ! 0)" by blast+
  have "6 < length ?z"
    using next_match_cases[of "take 4 tpt_row" tzt_data "replicate (length (tzt_data ! 0)) None"]
      l0(1) assms(3) by auto
  moreover have "4 < length ?x"
    using next_match_cases[of "take 4 tpt_row" txt_data "replicate (length (txt_data ! 0)) None"]
      l0(2) assms(4) by auto
  ultimately show ?thesis
    using assms(1,2) by (simp add: merge_row_def Let_def index_def)
qed

lemma merge_data_returns:
  assumes "tzt_data \<noteq> []" "txt_data \<noteq> []"
    and "\<forall>r\<in>set tzt_data. 6 < length r" "\<forall>r\<in>set txt_data. 4 < length r"
  shows "\<exists>res. merge_data tpt_data tzt_data txt_data = Inr res"
proof -
  have "\<exists>res. list_all2 (\<lambda>r m. merge_row r tzt_data txt_data = Inr m) tpt_data res"
  proof (induction tpt_data)
    case Nil
    show ?case by simp
  next
    case (Cons r rs)
    from merge_row_returns[OF assms, of r] Cons show ?case
      by (auto simp: list_all2_Cons1)
  qed
  then show ?thesis by (simp add: merge_data_Inr_iff)
qed

text \<open>
  C2 fails on the code. With an angle row and an empty zenith list the default of
  \<open>next\<close> reads \<open>tzt_data[0]\<close> and raises IndexError; the same happens for an empty
  distance list. No merged record with null fields is returned. (With non-empty lists
  whose rows are long enough the function does return, and a missing match gives
  \<open>None\<close> fields: \<open>merge_data_returns\<close>, \<open>merge_row_zenith_gap\<close>,
  \<open>merge_row_distance_gap\<close>.)
\<close>

theorem merge_data_empty_zenith_raises:
  "merge_data ex_tpt [] ex_txt = Inl IndexError \<and> merge_data ex_tpt ex_tzt [] = Inl IndexError"
  by code_simp

text \<open>
  C3. The list that \<open>merge_data\<close> returns has the length of \<open>tpt_data\<close>, and its record
  at position \<open>i\<close> starts with the key fields of the angle row at position \<open>i\<close>: the output
  is driven by the angle rows alone.
\<close>

theorem merge_data_length:
  assumes "merge_data tpt_data tzt_data txt_data = Inr res"
  shows "length res = length tpt_data \<and>
         (\<forall>i<length tpt_data. \<exists>rest. res ! i = map Some (take 4 (tpt_data ! i)) @ rest)"
  using assms
  by (auto simp: merge_data_Inr_iff list_all2_conv_all_nth merge_row_key)


theorem merge_data_length_witness:
  "merge_data ex_tpt ex_tzt ex_txt =
     Inr [[Some ''S1'', Some ''1.5'', Some ''1'', Some ''T1'', Some ''1.6'', Some ''10.1'',
           Some ''190.1'', Some ''90.5'', Some ''269.5'', Some ''100.25'', Some ''2024-01-01'',
           Some ''10:00:00'']] \<and>
   length [[Some ''S1'', Some ''1.5'', Some ''1'', Some ''T1'', Some ''1.6'', Some ''10.1'',
           Some ''190.1'', Some ''90.5'', Some ''269.5'', Some ''100.25'', Some ''2024-01-01'',
           Some ''10:00:00'']] = length ex_tpt"
proof -
  have h: "merge_data ex_tpt ex_tzt ex_txt =
     Inr [[Some ''S1'', Some ''1.5'', Some ''1'', Some ''T1'', Some ''1.6'', Some ''10.1'',
           Some ''190.1'', Some ''90.5'', Some ''269.5'', Some ''100.25'', Some ''2024-01-01'',
           Some ''10:00:00'']]"
    by code_simp
  from merge_data_length[OF h] h show ?thesis by simp
qed

lemma next_match_first_match:
  "first_match rows key j \<Longrightarrow> next_match key rows dflt = map Some (rows ! j)"
  unfolding first_match_def by (blast intro: next_match_first)

lemma merge_row_shape:
  assumes "merge_row r tzt_data txt_data = Inr m"
  shows "\<exists>zrow xrow. 6 < length zrow \<and> 4 < length xrow \<and>
           zrow = next_match (take 4 r) tzt_data (replicate (length (tzt_data ! 0)) None) \<and>
           xrow = next_match (take 4 r) txt_data (replicate (length (txt_data ! 0)) None) \<and>
           m = map Some (take 4 r) @ [zrow ! 6] @ map Some (take 2 (drop 4 r))
               @ take 2 (drop 4 zrow) @ [xrow ! 4] @ map Some (drop 6 r)"
  using assms
  by (auto simp: merge_row_def Let_def bnd_Inr_iff index_def split: if_splits)

text \<open>
  C4. Every merged record is the four key fields of its angle row, one field from the
  zenith side, fields 4 and 5 of the angle row, two fields from the zenith side, one
  field from the distance side, and the angle row from field 6 on. The two sides are
  selected independently of each other. If \<open>j\<close> is the first position in \<open>tzt_data\<close> whose
  row has the key, the zenith fields are field 6 and fields 4 and 5 of that row; if \<open>l\<close> is
  the first position in \<open>txt_data\<close> whose row has the key, the distance field is field 4
  of that row. Later rows with the same key are not looked at. A side without a row
  of that key gives \<open>None\<close> fields.
\<close>

theorem merge_data_assembly:
  assumes "merge_data tpt_data tzt_data txt_data = Inr res" and "i < length tpt_data"
  shows "\<exists>th zs dist.
           res ! i = map Some (take 4 (tpt_data ! i)) @ [th]
                     @ map Some (take 2 (drop 4 (tpt_data ! i))) @ zs @ [dist]
                     @ map Some (drop 6 (tpt_data ! i)) \<and>
           (\<forall>j. first_match tzt_data (take 4 (tpt_data ! i)) j \<longrightarrow>
                6 < length (tzt_data ! j) \<and> th = Some (tzt_data ! j ! 6) \<and>
                zs = map Some (take 2 (drop 4 (tzt_data ! j)))) \<and>
           (\<forall>l. first_match txt_data (take 4 (tpt_data ! i)) l \<longrightarrow>
                4 < length (txt_data ! l) \<and> dist = Some (txt_data ! l ! 4)) \<and>
           ((\<forall>row\<in>set tzt_data. take 4 row \<noteq> take 4 (tpt_data ! i)) \<longrightarrow>
                th = None \<and> zs = [None, None]) \<and>
           ((\<forall>row\<in>set txt_data. take 4 row \<noteq> take 4 (tpt_data ! i)) \<longrightarrow> dist = None)"
proof -
  let ?r = "tpt_data ! i"
  let ?Z = "next_match (take 4 ?r) tzt_data (replicate (length (tzt_data ! 0)) None)"
  let ?X = "next_match (take 4 ?r) txt_data (replicate (length (txt_data ! 0)) None)"
  from assms have "merge_row ?r tzt_data txt_data = Inr (res ! i)"
    by (simp add: merge_data_Inr_iff list_all2_conv_all_nth)
  from merge_row_shape[OF this] have z: "6 < length ?Z" and x: "4 < length ?X"
    and m: "res ! i = map Some (take 4 ?r) @ [?Z ! 6] @ map Some (take 2 (drop 4 ?r))
               @ take 2 (drop 4 ?Z) @ [?X ! 4] @ map Some (drop 6 ?r)"
    by auto
  have zm: "6 < length (tzt_data ! j) \<and> ?Z ! 6 = Some (tzt_data ! j ! 6) \<and>
            take 2 (drop 4 ?Z) = map Some (take 2 (drop 4 (tzt_data ! j)))"
    if "first_match tzt_data (take 4 ?r) j" for j
    using z unfolding next_match_first_match[OF that] by (simp add: take_map drop_map)
  have xm: "4 < length (txt_data ! l) \<and> ?X ! 4 = Some (txt_data ! l ! 4)"
    if "first_match txt_data (take 4 ?r) l" for l
    using x unfolding next_match_first_match[OF that] by simp
  have zg: "?Z ! 6 = None \<and> take 2 (drop 4 ?Z) = [None, None]"
    if "\<forall>row\<in>set tzt_data. take 4 row \<noteq> take 4 ?r"
    using z unfolding next_match_none[OF that] by (simp add: numeral_2_eq_2 min_def)
  have xg: "?X ! 4 = None"
    if "\<forall>row\<in>set txt_data. take 4 row \<noteq> take 4 ?r"
    using x unfolding next_match_none[OF that] by simp
  from m zm xm zg xg show ?thesis by blast
qed

theorem merge_data_assembly_witness:
  "merge_data ex_tpt_mixed ex_tzt ex_txt_mixed =
     Inr [[Some ''S1'', Some ''1.5'', Some ''1'', Some ''T1'', Some ''1.6'', Some ''10.1'',
           Some ''190.1'', Some ''90.5'', Some ''269.5'', Some ''100.25'', Some ''2024-01-01'',
           Some ''10:00:00''],
          [Some ''S1'', Some ''1.5'', Some ''1'', Some ''T0'', Some ''1.1'', Some ''20.2'',
           Some ''200.2'', Some ''80.0'', Some ''280.0'', None, Some ''2024-01-01'',
           Some ''10:00:00''],
          [Some ''S1'', Some ''1.5'', Some ''1'', Some ''T9'', None, Some ''30.3'',
           Some ''210.3'', None, None, Some ''55.5'', Some ''2024-01-01'',
           Some ''10:00:00'']]"
proof -
  obtain res where h: "merge_data ex_tpt_mixed ex_tzt ex_txt_mixed = Inr res"
    and l: "length res = 3"
  proof -
    have "merge_data ex_tpt_mixed ex_tzt ex_txt_mixed =
     Inr [[Some ''S1'', Some ''1.5'', Some ''1'', Some ''T1'', Some ''1.6'', Some ''10.1'',
           Some ''190.1'', Some ''90.5'', Some ''269.5'', Some ''100.25'', Some ''2024-01-01'',
           Some ''10:00:00''],
          [Some ''S1'', Some ''1.5'', Some ''1'', Some ''T0'', Some ''1.1'', Some ''20.2'',
           Some ''200.2'', Some ''80.0'', Some ''280.0'', None, Some ''2024-01-01'',
           Some ''10:00:00''],
          [Some ''S1'', Some ''1.5'', Some ''1'', Some ''T9'', None, Some ''30.3'',
           Some ''210.3'', None, None, Some ''55.5'', Some ''2024-01-01'',
           Some ''10:00:00'']]"
      by code_simp
    then show ?thesis by (intro that) auto
  qed
  have n: "(0::nat) < length ex_tpt_mixed" "(1::nat) < length ex_tpt_mixed"
    "(2::nat) < length ex_tpt_mixed"
    by (simp_all add: ex_tpt_mixed_def)
  have z0: "first_match ex_tzt (take 4 (ex_tpt_mixed ! 0)) 1"
    and x0: "first_match ex_txt_mixed (take 4 (ex_tpt_mixed ! 0)) 0"
    and z1: "first_match ex_tzt (take 4 (ex_tpt_mixed ! 1)) 0"
    and x1: "\<forall>row\<in>set ex_txt_mixed. take 4 row \<noteq> take 4 (ex_tpt_mixed ! 1)"
    and z2: "\<forall>row\<in>set ex_tzt. take 4 row \<noteq> take 4 (ex_tpt_mixed ! 2)"
    and x2: "first_match ex_txt_mixed (take 4 (ex_tpt_mixed ! 2)) 1"
    by (simp_all add: first_match_def ex_tpt_mixed_def ex_tzt_def ex_txt_mixed_def)
  have r0: "res ! 0 = [Some ''S1'', Some ''1.5'', Some ''1'', Some ''T1'', Some ''1.6'', Some ''10.1'',
           Some ''190.1'', Some ''90.5'', Some ''269.5'', Some ''100.25'', Some ''2024-01-01'',
           Some ''10:00:00'']"
    using merge_data_assembly[OF h n(1)] z0 x0
    by (auto simp: ex_tpt_mixed_def ex_tzt_def ex_txt_mixed_def)
  have r1: "res ! 1 = [Some ''S1'', Some ''1.5'', Some ''1'', Some ''T0'', Some ''1.1'', Some ''20.2'',
           Some ''200.2'', Some ''80.0'', Some ''280.0'', None, Some ''2024-01-01'',
           Some ''10:00:00'']"
    using merge_data_assembly[OF h n(2)] z1 x1
    by (auto simp: ex_tpt_mixed_def ex_tzt_def ex_txt_mixed_def)
  have r2: "res ! 2 = [Some ''S1'', Some ''1.5'', Some ''1'', Some ''T9'', None, Some ''30.3'',
           Some ''210.3'', None, None, Some ''55.5'', Some ''2024-01-01'',
           Some ''10:00:00'']"
    using merge_data_assembly[OF h n(3)] z2 x2
    by (auto simp: ex_tpt_mixed_def ex_tzt_def ex_txt_mixed_def)
  from list_of_length_3[OF l] r0 r1 r2 h show ?thesis by metis
qed

section \<open>Properties of the global ordering and of the end of the run\<close>

lemma keys_of_Inr_iff:
  "keys_of data = Inr ks \<longleftrightarrow> list_all2 (\<lambda>b k. batch_key b = Inr k) data ks"
proof (induction data arbitrary: ks)
  case Nil
  show ?case by auto
next
  case (Cons b bs)
  show ?case by (auto simp: bnd_Inr_iff Cons.IH list_all2_Cons1)
qed

lemma batch_key_Inr:
  assumes "batch_key b = Inr k"
  shows "\<exists>d t. 0 < length b \<and> 11 < length (b ! 0) \<and> b ! 0 ! 10 = Some d \<and> b ! 0 ! 11 = Some t
           \<and> strptime (d @ '' '' @ t) = Inr k"
  using assms
  by (auto simp: batch_key_def bnd_Inr_iff index_def str_add_def split: if_splits option.splits)

lemma keys_of_first_failure:
  assumes "keys_of pre = Inr ks" "batch_key b = Inl e"
  shows "keys_of (pre @ b # post) = Inl e"
  using assms
proof (induction pre arbitrary: ks)
  case Nil
  then show ?case by simp
next
  case (Cons p ps)
  then obtain k ks' where "batch_key p = Inr k" "keys_of ps = Inr ks'"
    by (auto simp: bnd_Inr_iff)
  with Cons show ?case by simp
qed

lemma sort_batches_first_failure:
  assumes "keys_of pre = Inr ks" "batch_key b = Inl e"
  shows "sort_batches (pre @ b # post) = Inl e"
  using keys_of_first_failure[OF assms] by (simp add: sort_batches_def)

lemma batch_key_empty: "batch_key [] = Inl IndexError"
  by (simp add: batch_key_def index_def)


text \<open>
  C5. When the sort returns, its output is a permutation of the collected batches and
  is ascending in the keys, where the key of a batch is what \<open>strptime\<close> makes of the
  date field (index 10) and the time field (index 11) of its first record, joined by
  one space.
\<close>

theorem sort_batches_sorted_permutation:
  assumes "sort_batches data = Inr out"
  shows "mset out = mset data \<and>
         (\<exists>keys. length keys = length out \<and> sorted keys \<and>
            (\<forall>i<length out. \<exists>d t. 0 < length (out ! i) \<and> 11 < length (out ! i ! 0)
               \<and> out ! i ! 0 ! 10 = Some d \<and> out ! i ! 0 ! 11 = Some t
               \<and> strptime (d @ '' '' @ t) = Inr (keys ! i)))"
proof -
  from assms obtain ks where ks: "keys_of data = Inr ks"
    and out: "out = map snd (sort_key fst (zip ks data))"
    by (auto simp: sort_batches_def bnd_Inr_iff)
  let ?zs = "sort_key fst (zip ks data)"
  from ks have all2: "list_all2 (\<lambda>b k. batch_key b = Inr k) data ks"
    by (simp add: keys_of_Inr_iff)
  then have len: "length ks = length data" by (simp add: list_all2_lengthD)
  have "mset out = image_mset snd (mset (zip ks data))"
    by (simp add: out)
  also have "\<dots> = mset (map snd (zip ks data))" by simp
  also have "\<dots> = mset data" using len by simp
  finally have perm: "mset out = mset data" .
  have key: "batch_key b = Inr k" if "(k, b) \<in> set ?zs" for k b
  proof -
    from that have "(k, b) \<in> set (zip ks data)" by simp
    then obtain i where "i < length data" "ks ! i = k" "data ! i = b"
      by (auto simp: in_set_zip)
    with all2 show ?thesis by (auto simp: list_all2_conv_all_nth)
  qed
  have "sorted (map fst ?zs)" by simp
  moreover have "length (map fst ?zs) = length out" by (simp add: out)
  moreover have "\<exists>d t. 0 < length (out ! i) \<and> 11 < length (out ! i ! 0)
               \<and> out ! i ! 0 ! 10 = Some d \<and> out ! i ! 0 ! 11 = Some t
               \<and> strptime (d @ '' '' @ t) = Inr (map fst ?zs ! i)" if "i < length out" for i
  proof -
    from that have i: "i < length ?zs" by (simp add: out)
    then have "?zs ! i \<in> set ?zs" by (rule nth_mem)
    then have "(fst (?zs ! i), snd (?zs ! i)) \<in> set ?zs" by simp
    then have "batch_key (snd (?zs ! i)) = Inr (fst (?zs ! i))" by (rule key)
    then have "batch_key (out ! i) = Inr (map fst ?zs ! i)" using i by (simp add: out)
    then show ?thesis by (rule batch_key_Inr)
  qed
  ultimately show ?thesis using perm by blast
qed


theorem sort_batches_sorted_permutation_witness:
  "sort_batches ex_batches =
     Inr [ex_batch ''2024-01-01'' ''09:00:00'', ex_batch ''2024-01-02'' ''10:00:00'',
          ex_batch ''2024-01-03'' ''08:00:00''] \<and>
   mset [ex_batch ''2024-01-01'' ''09:00:00'', ex_batch ''2024-01-02'' ''10:00:00'',
          ex_batch ''2024-01-03'' ''08:00:00''] = mset ex_batches"
proof -
  have h: "sort_batches ex_batches =
     Inr [ex_batch ''2024-01-01'' ''09:00:00'', ex_batch ''2024-01-02'' ''10:00:00'',
          ex_batch ''2024-01-03'' ''08:00:00'']"
    by code_simp
  from sort_batches_sorted_permutation[OF h] h show ?thesis by blast
qed

text \<open>
  C9. A triple whose angle export has no data rows gives an empty batch; once that
  batch is among the collected ones (the batches before it having keys), the sort
  raises IndexError on its first record, nothing is logged and no report is written.
\<close>

theorem empty_angle_body_breaks_sort:
  assumes "process_data tpt_f tzt_f txt_f = Inr b" and "data_rows tpt_f = []"
    and "keys_of pre = Inr ks"
  shows "b = [] \<and> sort_batches (pre @ b # post) = Inl IndexError \<and>
         finish_run save (pre @ b # post) lg =
           \<lparr>ending = Uncaught IndexError, final_log = lg, report = None\<rparr>"
proof -
  from assms(1) obtain tpt tzt txd where
    a: "processing_angle tpt_f = Inr tpt" and m: "merge_data tpt tzt txd = Inr b"
    by (auto simp: process_data_def bnd_Inr_iff)
  from a assms(2) have "tpt = []" using processing_angle_length by fastforce
  with m have b: "b = []" by (simp add: merge_data_def)
  have s: "sort_batches (pre @ b # post) = Inl IndexError"
    unfolding b using assms(3) batch_key_empty by (rule sort_batches_first_failure)
  then show ?thesis using b by (simp add: finish_run_def after_join_def main_block_def)
qed

theorem empty_angle_body_breaks_sort_witness:
  "process_data ex_empty_angle_file ex_angle_file ex_distance_file = Inr [] \<and>
   data_rows ex_empty_angle_file = [] \<and>
   sort_batches [[]] = Inl IndexError \<and>
   finish_run save_ok [[]] fresh_logger =
     \<lparr>ending = Uncaught IndexError, final_log = fresh_logger, report = None\<rparr>"
proof -
  have p: "process_data ex_empty_angle_file ex_angle_file ex_distance_file = Inr []"
    by code_simp
  have d: "data_rows ex_empty_angle_file = []"
    by code_simp
  have k: "keys_of [] = Inr []"
    by simp
  from empty_angle_body_breaks_sort[OF p d k, of "[]" save_ok fresh_logger] p d
  show ?thesis by simp
qed








section \<open>Properties of the spawn loop\<close>

lemma spawn_loop_eq:
  assumes "\<forall>(n, d) \<in> set files. \<forall>k. d k \<noteq> Some []"
  shows "spawn_loop files threads =
         threads @ map (\<lambda>(n, d). (the (d ''TPT''), the (d ''TZT''), the (d ''TXT'')))
                    (filter (\<lambda>(n, d). {''TPT'', ''TZT'', ''TXT''} \<subseteq> dom d) files)"
  using assms
proof (induction files arbitrary: threads)
  case Nil
  show ?case by simp
next
  case (Cons f fs)
  obtain n d where f: "f = (n, d)" by (cases f)
  have t: "truthy (d k) \<longleftrightarrow> k \<in> dom d" for k
    using Cons.prems by (auto simp: f truthy_def split: option.splits)
  have "\<forall>(n, d) \<in> set fs. \<forall>k. d k \<noteq> Some []" using Cons.prems by auto
  note IH = Cons.IH[OF this]
  show ?case by (simp add: f t IH Let_def)
qed


text \<open>
  C7. For a discovered mapping (every stored path is a non-empty string), the threads
  started are exactly those of the groups that hold all three of TPT, TZT and TXT, in
  the order of the mapping, each with the group's three paths. A group that lacks one
  of them starts nothing; the loop raises in no case.
\<close>

theorem spawned_iff_complete:
  assumes "\<forall>(n, d) \<in> set files. \<forall>k. d k \<noteq> Some []"
  shows "spawned files =
         map (\<lambda>(n, d). (the (d ''TPT''), the (d ''TZT''), the (d ''TXT'')))
           (filter (\<lambda>(n, d). {''TPT'', ''TZT'', ''TXT''} \<subseteq> dom d) files)"
  using spawn_loop_eq[OF assms, of "[]"] by (simp add: spawned_def)

theorem spawned_iff_complete_witness:
  "spawned ex_files = [(''in/B/b.TPT'', ''in/B/b.TZT'', ''in/B/b.TXT'')]"
proof -
  have h: "\<forall>(n, d) \<in> set ex_files. \<forall>k. d k \<noteq> Some []"
    by (simp add: ex_files_def)
  show ?thesis
    using spawned_iff_complete[OF h] by (simp add: ex_files_def)
qed

section \<open>Properties of the admission semaphore\<close>

lemma count_list_update:
  "i < length xs \<Longrightarrow>
   length (filter P (xs[i := y])) + (if P (xs ! i) then 1 else 0)
     = length (filter P xs) + (if P y then 1 else 0)"
proof (induction xs arbitrary: i)
  case Nil
  then show ?case by simp
next
  case (Cons x xs)
  show ?case
  proof (cases i)
    case 0
    then show ?thesis by simp
  next
    case (Suc j)
    with Cons.prems have "j < length xs" by simp
    from Cons.IH[OF this] show ?thesis by (simp add: Suc)
  qed
qed

lemma fire_invariant:
  assumes "fire e s = Some s'"
  shows "holders s' + permits s' = holders s + permits s \<and> length (workers s') = length (workers s)"
proof (cases e)
  case (Acquire i)
  with assms have i: "i < length (workers s)" and w: "workers s ! i = Waiting" and p: "0 < permits s"
    and s': "s' = \<lparr>permits = permits s - 1, workers = (workers s)[i := Holding]\<rparr>"
    by (auto split: if_splits)
  from count_list_update[OF i, of "\<lambda>p. p = Holding" Holding] w
  have "holders s' = holders s + 1" by (simp add: holders_def s')
  with p show ?thesis by (simp add: s')
next
  case (Release i)
  with assms have i: "i < length (workers s)" and w: "workers s ! i = Holding"
    and s': "s' = \<lparr>permits = permits s + 1, workers = (workers s)[i := Released]\<rparr>"
    by (auto split: if_splits)
  from count_list_update[OF i, of "\<lambda>p. p = Holding" Released] w
  have "holders s' + 1 = holders s" by (simp add: holders_def s')
  then show ?thesis by (simp add: s')
qed

lemma run_schedule_invariant:
  "run_schedule es s = Some s' \<Longrightarrow>
     holders s' + permits s' = holders s + permits s \<and> length (workers s') = length (workers s)"
proof (induction es arbitrary: s)
  case Nil
  then show ?case by simp
next
  case (Cons e es)
  then obtain s1 where f: "fire e s = Some s1" and r: "run_schedule es s1 = Some s'"
    by (auto split: option.splits)
  from fire_invariant[OF f] Cons.IH[OF r] show ?case by simp
qed

lemma run_schedule_append:
  "run_schedule (es1 @ es2) s = (case run_schedule es1 s of None \<Rightarrow> None | Some s1 \<Rightarrow> run_schedule es2 s1)"
  by (induction es1 arbitrary: s) (auto split: option.splits)

lemma holders_start: "holders (start_pool N n) = 0"
  by (simp add: holders_def start_pool_def)

lemma fire_worker:
  assumes "fire e s = Some s'" "i < length (workers s)"
  shows "workers s' ! i = workers s ! i
         \<or> (e = Acquire i \<and> workers s ! i = Waiting \<and> workers s' ! i = Holding)
         \<or> (e = Release i \<and> workers s ! i = Holding \<and> workers s' ! i = Released)"
  using assms by (cases e) (auto split: if_splits simp: nth_list_update)

lemma run_schedule_history:
  assumes "run_schedule es s = Some s'" "i < length (workers s)"
  shows "(workers s ! i = Waiting \<longrightarrow>
            (workers s' ! i = Holding \<longrightarrow> Acquire i \<in> set es) \<and>
            (workers s' ! i = Released \<longrightarrow> Acquire i \<in> set es \<and> Release i \<in> set es)) \<and>
         (workers s ! i = Holding \<longrightarrow>
            workers s' ! i \<noteq> Waiting \<and> (workers s' ! i = Released \<longrightarrow> Release i \<in> set es)) \<and>
         (workers s ! i = Released \<longrightarrow> workers s' ! i = Released)"
  using assms
proof (induction es arbitrary: s)
  case Nil
  then show ?case by simp
next
  case (Cons e es)
  then obtain s1 where f: "fire e s = Some s1" and r: "run_schedule es s1 = Some s'"
    by (auto split: option.splits)
  have l: "i < length (workers s1)" using fire_invariant[OF f] Cons.prems(2) by simp
  note IH = Cons.IH[OF r l]
  from fire_worker[OF f Cons.prems(2)] IH show ?case
    by (cases "workers s ! i"; cases "workers s1 ! i") auto
qed

text \<open>
  C8. In every execution of \<open>n\<close> workers under a semaphore of capacity \<open>N\<close>, the number
  of workers that hold a slot plus the permits left is \<open>N\<close>; so after every prefix of
  the execution at most \<open>N\<close> workers hold a slot. A worker that holds a slot has passed
  \<open>acquire\<close>, and one that is done has passed \<open>acquire\<close> and \<open>release\<close>.
\<close>

theorem semaphore_bound:
  assumes "run_schedule es (start_pool N n) = Some s"
  shows "holders s + permits s = N \<and>
         (\<forall>k\<le>length es. \<exists>s'. run_schedule (take k es) (start_pool N n) = Some s' \<and> holders s' \<le> N) \<and>
         (\<forall>i<n. (workers s ! i = Holding \<longrightarrow> Acquire i \<in> set es) \<and>
                (workers s ! i = Released \<longrightarrow> Acquire i \<in> set es \<and> Release i \<in> set es))"
proof -
  have inv: "holders s' + permits s' = N" if "run_schedule es' (start_pool N n) = Some s'" for es' s'
    using run_schedule_invariant[OF that] holders_start[of N n] by (simp add: start_pool_def)
  have "\<exists>s'. run_schedule (take k es) (start_pool N n) = Some s' \<and> holders s' \<le> N" for k
  proof -
    have "run_schedule (take k es @ drop k es) (start_pool N n) = Some s" using assms by simp
    then obtain s1 where s1: "run_schedule (take k es) (start_pool N n) = Some s1"
      unfolding run_schedule_append by (auto split: option.splits)
    from inv[OF s1] have "holders s1 \<le> N" by simp
    with s1 show ?thesis by blast
  qed
  moreover have "(workers s ! i = Holding \<longrightarrow> Acquire i \<in> set es) \<and>
                (workers s ! i = Released \<longrightarrow> Acquire i \<in> set es \<and> Release i \<in> set es)"
    if "i < n" for i
    using run_schedule_history[OF assms, of i] that by (simp add: start_pool_def)
  ultimately show ?thesis using inv[OF assms] by blast
qed

theorem semaphore_bound_witness:
  "run_schedule [Acquire 0, Acquire 2, Release 0, Acquire 1] (start_pool 2 3)
     = Some \<lparr>permits = 0, workers = [Released, Holding, Holding]\<rparr> \<and>
   holders \<lparr>permits = 0, workers = [Released, Holding, Holding]\<rparr> + 0 = 2"
proof -
  have h: "run_schedule [Acquire 0, Acquire 2, Release 0, Acquire 1] (start_pool 2 3)
     = Some \<lparr>permits = 0, workers = [Released, Holding, Holding]\<rparr>"
    by code_simp
  from semaphore_bound[OF h] h show ?thesis by simp
qed

section \<open>Properties of merge_data on the store\<close>

lemma grows_refl: "grows h h"
  by (simp add: grows_def)

lemma grows_trans: "grows h h1 \<Longrightarrow> grows h1 h2 \<Longrightarrow> grows h h2"
  by (auto simp: grows_def)

lemma grows_length: "grows h h' \<Longrightarrow> length h \<le> length h'"
  by (auto simp: grows_def)

lemma grows_nth: "grows h h' \<Longrightarrow> a < length h \<Longrightarrow> h' ! a = h ! a"
  by (auto simp: grows_def nth_append)

lemma allocs_bnd:
  assumes "allocs h m" and "\<And>h1 x. m = Inr (h1, x) \<Longrightarrow> allocs h1 (f (h1, x))"
  shows "allocs h (bnd m f)"
proof (cases m)
  case (Inl e)
  then show ?thesis by (simp add: allocs_def)
next
  case (Inr p)
  obtain h1 x where p: "p = (h1, x)" by (cases p)
  from assms(1) have g: "grows h h1" by (simp add: allocs_def Inr p)
  from assms(2)[of h1 x] have "allocs h1 (f (h1, x))" by (simp add: Inr p)
  with g show ?thesis
    by (auto simp: allocs_def Inr p split: sum.splits intro: grows_trans)
qed

lemma allocs_bnd_pure:
  assumes "\<And>x. m = Inr x \<Longrightarrow> allocs h (f x)"
  shows "allocs h (bnd m f)"
  using assms by (cases m) (simp_all add: allocs_def)

lemma fresh_row_bnd:
  assumes "allocs h m" and "\<And>h1 x. m = Inr (h1, x) \<Longrightarrow> fresh_row h1 (f (h1, x))"
  shows "fresh_row h (bnd m f)"
proof (cases m)
  case (Inl e)
  then show ?thesis by (simp add: fresh_row_def)
next
  case (Inr p)
  obtain h1 x where p: "p = (h1, x)" by (cases p)
  from assms(1) have g: "grows h h1" by (simp add: allocs_def Inr p)
  from assms(2)[of h1 x] have "fresh_row h1 (f (h1, x))" by (simp add: Inr p)
  with g grows_length[OF g] show ?thesis
    by (auto simp: fresh_row_def Inr p split: sum.splits intro: grows_trans)
qed

lemma fresh_row_bnd_pure:
  assumes "\<And>x. m = Inr x \<Longrightarrow> fresh_row h (f x)"
  shows "fresh_row h (bnd m f)"
  using assms by (cases m) (simp_all add: fresh_row_def)

lemma allocs_new_obj: "allocs h (new_obj ob h)"
  by (simp add: allocs_def new_obj_def grows_def)

lemma allocs_list_slice: "allocs h (list_slice lo hi a h)"
  unfolding list_slice_def by (intro allocs_bnd_pure allocs_new_obj)

lemma allocs_list_slice_from: "allocs h (list_slice_from lo a h)"
  unfolding list_slice_from_def by (intro allocs_bnd_pure allocs_new_obj)

lemma allocs_list_single: "allocs h (list_single a i h)"
  unfolding list_single_def by (intro allocs_bnd_pure allocs_new_obj)

lemma allocs_list_concat: "allocs h (list_concat a b h)"
  unfolding list_concat_def by (intro allocs_bnd_pure allocs_new_obj)

lemma allocs_placeholder: "allocs h (placeholder rows h)"
  unfolding placeholder_def by (intro allocs_bnd_pure allocs_new_obj)

lemma fresh_row_list_concat: "fresh_row h (list_concat a b h)"
  unfolding list_concat_def
  by (intro fresh_row_bnd_pure) (simp add: fresh_row_def new_obj_def grows_def)

lemma allocs_next_match_h: "allocs h (next_match_h si rs dflt h)"
proof (induction rs arbitrary: h)
  case Nil
  show ?case by (simp add: allocs_def grows_refl)
next
  case (Cons r rs)
  show ?case
    unfolding next_match_h.simps
  proof (rule allocs_bnd[OF allocs_list_slice], simp only: prod.case, intro allocs_bnd_pure)
    fix h1 key k si'
    show "allocs h1 (if k = si' then Inr (h1, r) else next_match_h si rs dflt h1)"
      using Cons.IH[of h1] by (simp add: allocs_def grows_refl)
  qed
qed

lemmas allocs_steps = allocs_list_slice allocs_list_slice_from allocs_list_single
  allocs_list_concat allocs_placeholder allocs_next_match_h

lemma fresh_row_merge_row_h: "fresh_row h (merge_row_h tpt_row tzt_data txt_data h)"
  unfolding merge_row_h_def
  by ((rule fresh_row_bnd fresh_row_bnd_pure fresh_row_list_concat allocs_steps | simp only: prod.case)+)


lemma merge_row_h_Inr:
  assumes "merge_row_h tpt_row tzt_data txt_data h = Inr (h1, merged)"
  shows "grows h h1 \<and> length h \<le> merged \<and> merged < length h1 \<and> (\<exists>fs. h1 ! merged = Row fs)"
  using fresh_row_merge_row_h[of h tpt_row tzt_data txt_data] assms
  by (simp add: fresh_row_def)

lemma merge_loop_h_frame:
  assumes "merge_loop_h rows tzt_data txt_data result h = Inr h'"
    and "kept h0 h" and "fresh_table h0 h result"
  shows "kept h0 h' \<and> fresh_table h0 h' result"
  using assms
proof (induction rows arbitrary: h)
  case Nil
  then show ?case by simp
next
  case (Cons r rows)
  from Cons.prems(1) obtain h1 merged h2 where
    m: "merge_row_h r tzt_data txt_data h = Inr (h1, merged)"
    and a: "list_append result merged h1 = Inr h2"
    and l: "merge_loop_h rows tzt_data txt_data result h2 = Inr h'"
    by (auto simp: bnd_Inr_iff)
  from merge_row_h_Inr[OF m] have g: "grows h h1" and lo: "length h \<le> merged"
    and hi: "merged < length h1" and row: "\<exists>fs. h1 ! merged = Row fs"
    by simp_all
  from Cons.prems(3) obtain ms where r0: "length h0 \<le> result" and r1: "result < length h"
    and t: "h ! result = Table ms"
    and ms: "\<forall>m\<in>set ms. length h0 \<le> m \<and> m < length h \<and> (\<exists>fs. h ! m = Row fs)"
    by (auto simp: fresh_table_def)
  have t1: "h1 ! result = Table ms" using grows_nth[OF g r1] t by simp
  have len1: "length h \<le> length h1" using g by (rule grows_length)
  from a t1 r1 len1 have h2: "h2 = h1[result := Table (ms @ [merged])]"
    by (auto simp: list_append_def get_table_def bnd_Inr_iff split: if_splits)
  have ne: "merged \<noteq> result" using lo r1 by simp
  have k2: "kept h0 h2"
    unfolding kept_def
  proof (intro conjI allI impI)
    show "length h0 \<le> length h2" using Cons.prems(2) len1 by (simp add: kept_def h2)
    fix a assume a: "a < length h0"
    then have "a \<noteq> result" "a < length h" using r0 Cons.prems(2) by (auto simp: kept_def)
    then have "h2 ! a = h ! a" using grows_nth[OF g] by (simp add: h2)
    with a Cons.prems(2) show "h2 ! a = h0 ! a" by (simp add: kept_def)
  qed
  have elems: "length h0 \<le> m \<and> m < length h2 \<and> (\<exists>fs. h2 ! m = Row fs)"
    if "m \<in> set (ms @ [merged])" for m
  proof -
    from that consider "m \<in> set ms" | "m = merged" by auto
    then have "length h0 \<le> m \<and> m < length h1 \<and> m \<noteq> result \<and> (\<exists>fs. h1 ! m = Row fs)"
    proof cases
      case 1
      with ms have b: "length h0 \<le> m" "m < length h" "\<exists>fs. h ! m = Row fs" by auto
      then have "h1 ! m = h ! m" using grows_nth[OF g] by simp
      moreover have "m \<noteq> result" using b(3) t by auto
      ultimately show ?thesis using b len1 by auto
    next
      case 2
      then show ?thesis using lo hi row ne r0 r1 by auto
    qed
    then show ?thesis by (auto simp: h2)
  qed
  have "h2 ! result = Table (ms @ [merged])" using r1 len1 by (simp add: h2)
  moreover have "result < length h2" using r1 len1 by (simp add: h2)
  ultimately have f2: "fresh_table h0 h2 result"
    unfolding fresh_table_def using r0 elems by blast
  from Cons.IH[OF l k2 f2] show ?case .
qed

text \<open>
  The function on the store computes what \<open>merge_data\<close> on values computes: on
  tables that hold rows of strings it raises the same exception, or returns a new table
  whose rows read back as the merged records.
\<close>

lemma get_row_grows: "grows h h' \<Longrightarrow> get_row h a = Inr fs \<Longrightarrow> get_row h' a = Inr fs"
  by (auto simp: grows_def get_row_def nth_append split: if_splits)

lemma get_table_grows: "grows h h' \<Longrightarrow> get_table h a = Inr rs \<Longrightarrow> get_table h' a = Inr rs"
  by (auto simp: grows_def get_table_def nth_append split: if_splits)

lemma rows_in_grows: "grows h h' \<Longrightarrow> rows_in h as rows \<Longrightarrow> rows_in h' as rows"
  unfolding rows_in_def by (erule list_all2_mono) (rule get_row_grows)

lemma new_obj_row:
  "\<exists>h'. new_obj (Row fs) h = Inr (h', length h) \<and> grows h h' \<and> get_row h' (length h) = Inr fs"
  by (simp add: new_obj_def grows_def get_row_def)

lemma list_slice_ok:
  assumes "get_row h a = Inr fs"
  shows "\<exists>h'. list_slice lo hi a h = Inr (h', length h) \<and> grows h h'
              \<and> get_row h' (length h) = Inr (take (hi - lo) (drop lo fs))"
  using assms new_obj_row[of "take (hi - lo) (drop lo fs)" h] by (simp add: list_slice_def)

lemma list_slice_from_ok:
  assumes "get_row h a = Inr fs"
  shows "\<exists>h'. list_slice_from lo a h = Inr (h', length h) \<and> grows h h'
              \<and> get_row h' (length h) = Inr (drop lo fs)"
  using assms new_obj_row[of "drop lo fs" h] by (simp add: list_slice_from_def)

lemma list_single_ok:
  assumes "get_row h a = Inr fs" "i < length fs"
  shows "\<exists>h'. list_single a i h = Inr (h', length h) \<and> grows h h'
              \<and> get_row h' (length h) = Inr [fs ! i]"
  using assms new_obj_row[of "[fs ! i]" h] by (simp add: list_single_def index_def)

lemma list_single_fails:
  assumes "get_row h a = Inr fs" "\<not> i < length fs"
  shows "list_single a i h = Inl IndexError"
  using assms by (simp add: list_single_def index_def)

lemma list_concat_ok:
  assumes "get_row h a = Inr xs" "get_row h b = Inr ys"
  shows "\<exists>h'. list_concat a b h = Inr (h', length h) \<and> grows h h'
              \<and> get_row h' (length h) = Inr (xs @ ys)"
  using assms new_obj_row[of "xs @ ys" h] by (simp add: list_concat_def)

lemma placeholder_ok:
  assumes "get_table h t = Inr as" "rows_in h as rows" "rows \<noteq> []"
  shows "\<exists>h'. placeholder t h = Inr (h', length h) \<and> grows h h'
              \<and> get_row h' (length h) = Inr (replicate (length (rows ! 0)) None)"
proof -
  from assms(2,3) obtain a as' r rs where as: "as = a # as'" and rows: "rows = r # rs"
    and a: "get_row h a = Inr (map Some r)"
    by (cases as; cases rows) (auto simp: rows_in_def)
  show ?thesis
    using assms(1) a new_obj_row[of "replicate (length r) None" h]
    by (simp add: placeholder_def as rows index_def)
qed

lemma placeholder_fails:
  assumes "get_table h t = Inr as" "rows_in h as []"
  shows "placeholder t h = Inl IndexError"
  using assms by (simp add: placeholder_def rows_in_def index_def)

lemma next_match_h_ok:
  assumes "get_row h si = Inr (map Some key)" "rows_in h as rows" "get_row h dflt = Inr dfl"
  shows "\<exists>h' r. next_match_h si as dflt h = Inr (h', r) \<and> grows h h'
                \<and> get_row h' r = Inr (next_match key rows dfl)"
  using assms
proof (induction as arbitrary: h rows)
  case Nil
  then show ?case by (auto simp: rows_in_def grows_refl)
next
  case (Cons a as)
  from Cons.prems(2) obtain r rs where rows: "rows = r # rs"
    and a: "get_row h a = Inr (map Some r)" and rest: "rows_in h as rs"
    by (cases rows) (auto simp: rows_in_def)
  from list_slice_ok[OF a, of 0 4] obtain h1 where
    s: "list_slice 0 4 a h = Inr (h1, length h)" and g: "grows h h1"
    and k: "get_row h1 (length h) = Inr (map Some (take 4 r))"
    by (auto simp: take_map)
  have si1: "get_row h1 si = Inr (map Some key)" using g Cons.prems(1) by (rule get_row_grows)
  have eq: "map Some (take 4 r) = map Some key \<longleftrightarrow> take 4 r = key"
    by (simp add: inj_map_eq_map)
  show ?case
  proof (cases "take 4 r = key")
    case True
    have "get_row h1 a = Inr (map Some r)" using g a by (rule get_row_grows)
    with True s k si1 g show ?thesis by (auto simp: rows)
  next
    case False
    have "rows_in h1 as rs" using g rest by (rule rows_in_grows)
    moreover have "get_row h1 dflt = Inr dfl" using g Cons.prems(3) by (rule get_row_grows)
    ultimately obtain h' x where n: "next_match_h si as dflt h1 = Inr (h', x)"
      and g': "grows h1 h'" and x: "get_row h' x = Inr (next_match key rs dfl)"
      using Cons.IH[OF si1] by blast
    from False s k si1 n eq have "next_match_h si (a # as) dflt h = Inr (h', x)" by simp
    moreover have "grows h h'" using g g' by (rule grows_trans)
    ultimately show ?thesis using x False by (auto simp: rows)
  qed
qed


lemma merge_row_h_refines:
  assumes r: "get_row h tpt_row = Inr (map Some r)"
    and z: "get_table h tzt_data = Inr zs" "rows_in h zs tzt_rows"
    and x: "get_table h txt_data = Inr xs" "rows_in h xs txt_rows"
  shows "case merge_row r tzt_rows txt_rows of
           Inl e \<Rightarrow> merge_row_h tpt_row tzt_data txt_data h = Inl e
         | Inr m \<Rightarrow> \<exists>h' a. merge_row_h tpt_row tzt_data txt_data h = Inr (h', a)
                          \<and> get_row h' a = Inr m"
proof -
  let ?key = "take 4 r"
  let ?Z = "next_match ?key tzt_rows (replicate (length (tzt_rows ! 0)) None)"
  let ?X = "next_match ?key txt_rows (replicate (length (txt_rows ! 0)) None)"
  note lift = get_row_grows
  from list_slice_ok[OF r, of 0 4] obtain h1 where
    s1: "list_slice 0 4 tpt_row h = Inr (h1, length h)" and g1: "grows h h1"
    and si: "get_row h1 (length h) = Inr (map Some ?key)"
    by (auto simp: take_map)
  have z1: "get_table h1 tzt_data = Inr zs" "rows_in h1 zs tzt_rows"
    using g1 z by (auto intro: get_table_grows rows_in_grows)
  show ?thesis
  proof (cases "tzt_rows = []")
    case True
    with z1 have "placeholder tzt_data h1 = Inl IndexError" by (auto intro: placeholder_fails)
    with True s1 z1 show ?thesis by (simp add: merge_row_def merge_row_h_def index_def)
  next
    case zne: False
    from placeholder_ok[OF z1 zne] obtain h2 where
      s2: "placeholder tzt_data h1 = Inr (h2, length h1)" and g2: "grows h1 h2"
      and dz: "get_row h2 (length h1) = Inr (replicate (length (tzt_rows ! 0)) None)"
      by blast
    have "get_row h2 (length h) = Inr (map Some ?key)" using g2 si by (rule lift)
    moreover have "rows_in h2 zs tzt_rows" using g2 z1(2) by (rule rows_in_grows)
    ultimately obtain h3 zr where
      s3: "next_match_h (length h) zs (length h1) h2 = Inr (h3, zr)" and g3: "grows h2 h3"
      and zr: "get_row h3 zr = Inr ?Z"
      using next_match_h_ok[OF _ _ dz] by blast
    have g03: "grows h h3" using g1 g2 g3 by (blast intro: grows_trans)
    have x3: "get_table h3 txt_data = Inr xs" "rows_in h3 xs txt_rows"
      using g03 x by (auto intro: get_table_grows rows_in_grows)
    show ?thesis
    proof (cases "txt_rows = []")
      case True
      with x3 have "placeholder txt_data h3 = Inl IndexError" by (auto intro: placeholder_fails)
      with True zne s1 z1 s2 s3 x3 show ?thesis
        by (simp add: merge_row_def merge_row_h_def index_def)
    next
      case xne: False
      from placeholder_ok[OF x3 xne] obtain h4 where
        s4: "placeholder txt_data h3 = Inr (h4, length h3)" and g4: "grows h3 h4"
        and dx: "get_row h4 (length h3) = Inr (replicate (length (txt_rows ! 0)) None)"
        by blast
      have "get_row h4 (length h) = Inr (map Some ?key)"
        using si g2 g3 g4 by (blast intro: lift)
      moreover have "rows_in h4 xs txt_rows" using g4 x3(2) by (rule rows_in_grows)
      ultimately obtain h5 xr where
        s5: "next_match_h (length h) xs (length h3) h4 = Inr (h5, xr)" and g5: "grows h4 h5"
        and xr: "get_row h5 xr = Inr ?X"
        using next_match_h_ok[OF _ _ dx] by blast
      have zr5: "get_row h5 zr = Inr ?Z" using zr g4 g5 by (blast intro: lift)
      note pre = zne xne s1 z1 s2 s3 x3 s4 s5
      show ?thesis
      proof (cases "6 < length ?Z")
        case False
        with zr5 have "list_single zr 6 h5 = Inl IndexError" by (rule list_single_fails)
        with False pre show ?thesis
          by (simp add: merge_row_def merge_row_h_def index_def Let_def)
      next
        case z6: True
        from list_single_ok[OF zr5 z6] obtain h6 where
          s6: "list_single zr 6 h5 = Inr (h6, length h5)" and g6: "grows h5 h6"
          and t1: "get_row h6 (length h5) = Inr [?Z ! 6]"
          by blast
        have "get_row h6 (length h) = Inr (map Some ?key)"
          using si g2 g3 g4 g5 g6 by (blast intro: lift)
        from list_concat_ok[OF this t1] obtain h7 where
          s7: "list_concat (length h) (length h5) h6 = Inr (h7, length h6)" and g7: "grows h6 h7"
          and c1: "get_row h7 (length h6) = Inr (map Some ?key @ [?Z ! 6])"
          by blast
        have g07: "grows h h7" using g03 g4 g5 g6 g7 by (blast intro: grows_trans)
        have "get_row h7 tpt_row = Inr (map Some r)" using g07 r by (rule lift)
        from list_slice_ok[OF this, of 4 6] obtain h8 where
          s8: "list_slice 4 6 tpt_row h7 = Inr (h8, length h7)" and g8: "grows h7 h8"
          and t2: "get_row h8 (length h7) = Inr (map Some (take 2 (drop 4 r)))"
          by (auto simp: take_map drop_map)
        have "get_row h8 (length h6) = Inr (map Some ?key @ [?Z ! 6])" using g8 c1 by (rule lift)
        from list_concat_ok[OF this t2] obtain h9 where
          s9: "list_concat (length h6) (length h7) h8 = Inr (h9, length h8)" and g9: "grows h8 h9"
          and c2: "get_row h9 (length h8) =
                     Inr ((map Some ?key @ [?Z ! 6]) @ map Some (take 2 (drop 4 r)))"
          by blast
        have "get_row h9 zr = Inr ?Z" using zr5 g6 g7 g8 g9 by (blast intro: lift)
        from list_slice_ok[OF this, of 4 6] obtain h10 where
          s10: "list_slice 4 6 zr h9 = Inr (h10, length h9)" and g10: "grows h9 h10"
          and t3: "get_row h10 (length h9) = Inr (take 2 (drop 4 ?Z))"
          by auto
        have "get_row h10 (length h8) =
                Inr ((map Some ?key @ [?Z ! 6]) @ map Some (take 2 (drop 4 r)))"
          using g10 c2 by (rule lift)
        from list_concat_ok[OF this t3] obtain h11 where
          s11: "list_concat (length h8) (length h9) h10 = Inr (h11, length h10)"
          and g11: "grows h10 h11"
          and c3: "get_row h11 (length h10) =
                     Inr (((map Some ?key @ [?Z ! 6]) @ map Some (take 2 (drop 4 r)))
                          @ take 2 (drop 4 ?Z))"
          by blast
        have xr11: "get_row h11 xr = Inr ?X"
          using xr g6 g7 g8 g9 g10 g11 by (blast intro: lift)
        note pre2 = pre s6 s7 s8 s9 s10 s11
        show ?thesis
        proof (cases "4 < length ?X")
          case False
          with xr11 have "list_single xr 4 h11 = Inl IndexError" by (rule list_single_fails)
          with False z6 pre2 show ?thesis
            by (simp add: merge_row_def merge_row_h_def index_def Let_def)
        next
          case x4: True
          from list_single_ok[OF xr11 x4] obtain h12 where
            s12: "list_single xr 4 h11 = Inr (h12, length h11)" and g12: "grows h11 h12"
            and t4: "get_row h12 (length h11) = Inr [?X ! 4]"
            by blast
          have "get_row h12 (length h10) =
                     Inr (((map Some ?key @ [?Z ! 6]) @ map Some (take 2 (drop 4 r)))
                          @ take 2 (drop 4 ?Z))"
            using g12 c3 by (rule lift)
          from list_concat_ok[OF this t4] obtain h13 where
            s13: "list_concat (length h10) (length h11) h12 = Inr (h13, length h12)"
            and g13: "grows h12 h13"
            and c4: "get_row h13 (length h12) =
                     Inr ((((map Some ?key @ [?Z ! 6]) @ map Some (take 2 (drop 4 r)))
                          @ take 2 (drop 4 ?Z)) @ [?X ! 4])"
            by blast
          have g013: "grows h h13"
            using g07 g8 g9 g10 g11 g12 g13 by (blast intro: grows_trans)
          have "get_row h13 tpt_row = Inr (map Some r)" using g013 r by (rule lift)
          from list_slice_from_ok[OF this, of 6] obtain h14 where
            s14: "list_slice_from 6 tpt_row h13 = Inr (h14, length h13)" and g14: "grows h13 h14"
            and t5: "get_row h14 (length h13) = Inr (map Some (drop 6 r))"
            by (auto simp: drop_map)
          have "get_row h14 (length h12) =
                     Inr ((((map Some ?key @ [?Z ! 6]) @ map Some (take 2 (drop 4 r)))
                          @ take 2 (drop 4 ?Z)) @ [?X ! 4])"
            using g14 c4 by (rule lift)
          from list_concat_ok[OF this t5] obtain h15 where
            s15: "list_concat (length h12) (length h13) h14 = Inr (h15, length h14)"
            and m: "get_row h15 (length h14) =
                     Inr (((((map Some ?key @ [?Z ! 6]) @ map Some (take 2 (drop 4 r)))
                          @ take 2 (drop 4 ?Z)) @ [?X ! 4]) @ map Some (drop 6 r))"
            by blast
          have pure: "merge_row r tzt_rows txt_rows =
                  Inr (map Some ?key @ [?Z ! 6] @ map Some (take 2 (drop 4 r))
                       @ take 2 (drop 4 ?Z) @ [?X ! 4] @ map Some (drop 6 r))"
            using zne xne z6 x4 by (simp add: merge_row_def index_def Let_def)
          have "merge_row_h tpt_row tzt_data txt_data h = Inr (h15, length h14)"
            using pre2 s12 s13 s14 s15 by (simp add: merge_row_h_def)
          with m pure show ?thesis by simp
        qed
      qed
    qed
  qed
qed


lemma read_rows_Inr_iff:
  "read_rows h as = Inr rs \<longleftrightarrow> list_all2 (\<lambda>a fs. get_row h a = Inr fs) as rs"
proof (induction as arbitrary: rs)
  case Nil
  show ?case by auto
next
  case (Cons a as)
  show ?case by (auto simp: bnd_Inr_iff Cons.IH list_all2_Cons1)
qed

lemma get_row_update:
  assumes "get_table h result = Inr ms" "get_row h a = Inr fs"
  shows "get_row (h[result := Table t]) a = Inr fs"
proof -
  from assms have "a \<noteq> result"
    by (auto simp: get_table_def get_row_def split: if_splits obj.splits)
  with assms(2) show ?thesis by (auto simp: get_row_def split: if_splits)
qed

lemma get_table_update_other:
  "t \<noteq> result \<Longrightarrow> get_table (h[result := ob]) t = get_table h t"
  by (simp add: get_table_def)

lemma get_table_update_same:
  "get_table h result = Inr ms \<Longrightarrow> get_table (h[result := Table t]) result = Inr t"
  by (auto simp: get_table_def split: if_splits)

lemma merge_loop_h_refines:
  assumes "rows_in h as rows"
    and "get_table h tzt_data = Inr zs" "rows_in h zs tzt_rows"
    and "get_table h txt_data = Inr xs" "rows_in h xs txt_rows"
    and "get_table h result = Inr ms" "read_rows h ms = Inr acc"
    and "tzt_data \<noteq> result" "txt_data \<noteq> result"
  shows "case merge_loop rows tzt_rows txt_rows acc of
           Inl e \<Rightarrow> merge_loop_h as tzt_data txt_data result h = Inl e
         | Inr out \<Rightarrow> \<exists>h'. merge_loop_h as tzt_data txt_data result h = Inr h'
                            \<and> read_table h' result = Inr out"
  using assms
proof (induction as arbitrary: rows h ms acc)
  case Nil
  then show ?case by (simp add: rows_in_def read_table_def)
next
  case (Cons a as)
  from Cons.prems(1) obtain r rs where rows: "rows = r # rs"
    and a: "get_row h a = Inr (map Some r)" and rest: "rows_in h as rs"
    by (cases rows) (auto simp: rows_in_def)
  note step = merge_row_h_refines[OF a Cons.prems(2,3,4,5)]
  show ?case
  proof (cases "merge_row r tzt_rows txt_rows")
    case (Inl e)
    with step show ?thesis by (simp add: rows)
  next
    case (Inr m)
    with step obtain h1 merged where
      s: "merge_row_h a tzt_data txt_data h = Inr (h1, merged)"
      and mg: "get_row h1 merged = Inr m"
      by auto
    from merge_row_h_Inr[OF s] have g: "grows h h1" by simp
    let ?h2 = "h1[result := Table (ms @ [merged])]"
    have t1: "get_table h1 result = Inr ms" using g Cons.prems(6) by (rule get_table_grows)
    then have ap: "list_append result merged h1 = Inr ?h2" by (simp add: list_append_def)
    note upd = get_row_update[OF t1]
    have "rows_in h1 as rs" using g rest by (rule rows_in_grows)
    then have i1: "rows_in ?h2 as rs"
      unfolding rows_in_def by (rule list_all2_mono) (rule upd)
    have "get_table h1 tzt_data = Inr zs" using g Cons.prems(2) by (rule get_table_grows)
    then have i2: "get_table ?h2 tzt_data = Inr zs"
      using Cons.prems(8) by (simp add: get_table_update_other)
    have "rows_in h1 zs tzt_rows" using g Cons.prems(3) by (rule rows_in_grows)
    then have i3: "rows_in ?h2 zs tzt_rows"
      unfolding rows_in_def by (rule list_all2_mono) (rule upd)
    have "get_table h1 txt_data = Inr xs" using g Cons.prems(4) by (rule get_table_grows)
    then have i4: "get_table ?h2 txt_data = Inr xs"
      using Cons.prems(9) by (simp add: get_table_update_other)
    have "rows_in h1 xs txt_rows" using g Cons.prems(5) by (rule rows_in_grows)
    then have i5: "rows_in ?h2 xs txt_rows"
      unfolding rows_in_def by (rule list_all2_mono) (rule upd)
    have i6: "get_table ?h2 result = Inr (ms @ [merged])"
      using t1 by (rule get_table_update_same)
    have "list_all2 (\<lambda>a fs. get_row h a = Inr fs) ms acc"
      using Cons.prems(7) by (simp add: read_rows_Inr_iff)
    then have "list_all2 (\<lambda>a fs. get_row ?h2 a = Inr fs) ms acc"
      by (rule list_all2_mono) (blast intro: upd get_row_grows[OF g])
    moreover have "get_row ?h2 merged = Inr m" using mg by (rule upd)
    ultimately have i7: "read_rows ?h2 (ms @ [merged]) = Inr (acc @ [m])"
      by (simp add: read_rows_Inr_iff list_all2_appendI)
    have e1: "merge_loop_h (a # as) tzt_data txt_data result h =
            merge_loop_h as tzt_data txt_data result ?h2"
      using s ap by simp
    have e2: "merge_loop rows tzt_rows txt_rows acc = merge_loop rs tzt_rows txt_rows (acc @ [m])"
      using Inr by (simp add: rows)
    show ?thesis
      unfolding e1 e2 by (rule Cons.IH[OF i1 i2 i3 i4 i5 i6 i7 Cons.prems(8,9)])
  qed
qed

lemma merge_data_h_refines:
  assumes "get_table h tpt_data = Inr as" "rows_in h as tpt_rows"
    and "get_table h tzt_data = Inr zs" "rows_in h zs tzt_rows"
    and "get_table h txt_data = Inr xs" "rows_in h xs txt_rows"
  shows "case merge_data tpt_rows tzt_rows txt_rows of
           Inl e \<Rightarrow> merge_data_h tpt_data tzt_data txt_data h = Inl e
         | Inr out \<Rightarrow> \<exists>h'. merge_data_h tpt_data tzt_data txt_data h = Inr (h', length h)
                            \<and> read_table h' (length h) = Inr out"
proof -
  let ?h0 = "h @ [Table []]"
  have g: "grows h ?h0" by (simp add: grows_def)
  have n: "new_obj (Table []) h = Inr (?h0, length h)" by (simp add: new_obj_def)
  have ne: "tzt_data \<noteq> length h" "txt_data \<noteq> length h"
    using assms(3,5) by (auto simp: get_table_def split: if_splits)
  have t: "get_table ?h0 tpt_data = Inr as" using g assms(1) by (rule get_table_grows)
  have "case merge_loop tpt_rows tzt_rows txt_rows [] of
           Inl e \<Rightarrow> merge_loop_h as tzt_data txt_data (length h) ?h0 = Inl e
         | Inr out \<Rightarrow> \<exists>h'. merge_loop_h as tzt_data txt_data (length h) ?h0 = Inr h'
                            \<and> read_table h' (length h) = Inr out"
  proof (rule merge_loop_h_refines[OF _ _ _ _ _ _ _ ne])
    show "rows_in ?h0 as tpt_rows" using g assms(2) by (rule rows_in_grows)
    show "get_table ?h0 tzt_data = Inr zs" using g assms(3) by (rule get_table_grows)
    show "rows_in ?h0 zs tzt_rows" using g assms(4) by (rule rows_in_grows)
    show "get_table ?h0 txt_data = Inr xs" using g assms(5) by (rule get_table_grows)
    show "rows_in ?h0 xs txt_rows" using g assms(6) by (rule rows_in_grows)
    show "get_table ?h0 (length h) = Inr []" by (simp add: get_table_def)
    show "read_rows ?h0 [] = Inr []" by simp
  qed
  with n t show ?thesis
    by (auto simp: merge_data_h_def merge_data_def split: sum.splits)
qed

text \<open>
  C10. When \<open>merge_data\<close> returns, every list object that existed before the call, so
  the three argument lists and every row they hold, is at its address with its contents
  unchanged. The returned list is a new object, and each merged record in it is a row at
  an address that did not exist before the call: none of them is an object of the
  inputs.
\<close>

theorem merge_data_h_frame:
  assumes "merge_data_h tpt_data tzt_data txt_data h = Inr (h', result)"
  shows "length h \<le> length h' \<and> (\<forall>a<length h. h' ! a = h ! a) \<and> result = length h \<and>
         (\<exists>ms. h' ! result = Table ms \<and>
            (\<forall>m\<in>set ms. length h \<le> m \<and> m < length h' \<and> m \<noteq> result \<and> (\<exists>fs. h' ! m = Row fs)))"
proof -
  let ?h0 = "h @ [Table []]"
  from assms obtain rows where
    l: "merge_loop_h rows tzt_data txt_data (length h) ?h0 = Inr h'" and r: "result = length h"
    by (auto simp: merge_data_h_def new_obj_def bnd_Inr_iff)
  have "kept h ?h0" by (simp add: kept_def nth_append)
  moreover have "fresh_table h ?h0 (length h)" by (simp add: fresh_table_def)
  ultimately have k: "kept h h'" and f: "fresh_table h h' (length h)"
    using merge_loop_h_frame[OF l] by simp_all
  from f obtain ms where t: "h' ! length h = Table ms"
    and ms: "\<forall>m\<in>set ms. length h \<le> m \<and> m < length h' \<and> (\<exists>fs. h' ! m = Row fs)"
    by (auto simp: fresh_table_def)
  have "m \<noteq> length h" if "m \<in> set ms" for m
    using ms t that by auto
  with k t ms r show ?thesis by (auto simp: kept_def)
qed


theorem merge_data_h_frame_witness:
  "\<not> isl (merge_data_h 0 1 2 ex_heap) \<and>
   snd (projr (merge_data_h 0 1 2 ex_heap)) = 8 \<and>
   take 8 (fst (projr (merge_data_h 0 1 2 ex_heap))) = ex_heap \<and>
   read_table (fst (projr (merge_data_h 0 1 2 ex_heap))) 8 =
     Inr [[Some ''S1'', Some ''1.5'', Some ''1'', Some ''T1'', Some ''1.6'', Some ''10.1'',
           Some ''190.1'', Some ''90.5'', Some ''269.5'', Some ''100.25'', Some ''2024-01-01'',
           Some ''10:00:00'']]"
proof -
  have i: "\<not> isl (merge_data_h 0 1 2 ex_heap)"
    by code_simp
  then obtain h' result where r: "merge_data_h 0 1 2 ex_heap = Inr (h', result)"
    by (cases "merge_data_h 0 1 2 ex_heap") auto
  have l: "length ex_heap = 8"
    by (simp add: ex_heap_def)
  from merge_data_h_frame[OF r] have f: "length ex_heap \<le> length h'"
    "\<forall>a<length ex_heap. h' ! a = ex_heap ! a" "result = length ex_heap"
    by simp_all
  have t: "take 8 h' = ex_heap"
    using f(1,2) l by (auto intro: nth_equalityI)
  have d: "read_table (fst (projr (merge_data_h 0 1 2 ex_heap))) 8 =
     Inr [[Some ''S1'', Some ''1.5'', Some ''1'', Some ''T1'', Some ''1.6'', Some ''10.1'',
           Some ''190.1'', Some ''90.5'', Some ''269.5'', Some ''100.25'', Some ''2024-01-01'',
           Some ''10:00:00'']]"
    by code_simp
  show ?thesis using i t f(3) l d unfolding r by simp
qed


end
